theory Spec2Isabelle
  imports Main
begin

unbundle bit_operations_syntax

section \<open>Conventions of the embedding\<close>

text \<open>
  The C++ sources are embedded shallowly.  A \<^verbatim>\<open>size_t\<close> is a \<^typ>\<open>nat\<close> and an
  \<^verbatim>\<open>int\<close> is an \<^typ>\<open>int\<close>: the development covers the runs in which no counter and no
  address leaves its machine range (signed overflow is undefined in C++, and none of the
  properties below speaks about wrap-around).  A \<^verbatim>\<open>vector\<close> is a list and
  \<^verbatim>\<open>v[i]\<close> is \<^term>\<open>v ! i\<close>; the sources never check an index, so an access out of
  range is undefined behaviour there, and the theorems state the configuration under which
  the indices stay in range.  The division \<^verbatim>\<open>/\<close> and remainder \<^verbatim>\<open>%\<close> of C++
  are \<open>div\<close> and \<open>mod\<close>, with which they agree on operands that are not negative; a
  division by zero, undefined in C++, is likewise excluded by the configuration.  Output on \<^verbatim>\<open>cout\<close> is not part of the state and is left
  out; a flag that only guards output is kept where it also guards a state change.
\<close>

section \<open>Cache level: \<^verbatim>\<open>cache_simulator.cpp\<close>\<close>

datatype ReplacementPolicy = FIFO | LRU

datatype WritePolicy = WRITE_THROUGH | WRITE_BACK

datatype AssociativityType = DIRECT_MAPPED | TWO_WAY | FOUR_WAY | FULLY_ASSOCIATIVE

record CacheLine =
  valid :: bool
  tag :: nat
  dirty :: bool
  insertion_order :: int
  last_access_time :: int

definition CacheLine_new :: CacheLine where
  "CacheLine_new =
     \<lparr>valid = False, tag = 0, dirty = False, insertion_order = 0, last_access_time = 0\<rparr>"

text \<open>
  The table \<^verbatim>\<open>cache[set][way]\<close> is a list of sets, each a list of lines.  Set and way
  indices, which the source keeps in \<^verbatim>\<open>int\<close> variables that are never negative, are
  natural numbers.
\<close>

record Cache =
  name :: string
  capacity :: int
  block_size :: int
  associativity :: AssociativityType
  replacement_policy :: ReplacementPolicy
  write_policy :: WritePolicy
  num_sets :: int
  ways :: int
  cache :: "CacheLine list list"
  next_insertion_order :: int
  access_counter :: int
  hits :: int
  misses :: int
  writes :: int
  write_hits :: int
  write_misses :: int
  writebacks :: int

definition getSetIndex :: "Cache \<Rightarrow> nat \<Rightarrow> nat" where
  "getSetIndex c addr = (addr div nat (block_size c)) mod nat (num_sets c)"

definition getTag :: "Cache \<Rightarrow> nat \<Rightarrow> nat" where
  "getTag c addr = (addr div nat (block_size c)) div nat (num_sets c)"

text \<open>The line \<^verbatim>\<open>cache[set][way]\<close> and the assignment to some of its fields.\<close>

definition line_at :: "Cache \<Rightarrow> nat \<Rightarrow> nat \<Rightarrow> CacheLine" where
  "line_at c s w = cache c ! s ! w"

definition update_line :: "Cache \<Rightarrow> nat \<Rightarrow> nat \<Rightarrow> (CacheLine \<Rightarrow> CacheLine) \<Rightarrow> Cache" where
  "update_line c s w f = c\<lparr>cache := (cache c)[s := (cache c ! s)[w := f (cache c ! s ! w)]]\<rparr>"

text \<open>
  One iteration of the scans in \<^verbatim>\<open>findFIFOVictimInSet\<close> and
  \<^verbatim>\<open>findLRUVictimInSet\<close>; the loop state is the pair of the way and its key.
\<close>

definition oldest_step ::
  "(CacheLine \<Rightarrow> int) \<Rightarrow> Cache \<Rightarrow> nat \<Rightarrow> nat \<times> int \<Rightarrow> nat \<Rightarrow> nat \<times> int" where
  "oldest_step key c s acc w =
     (if key (line_at c s w) < snd acc then (w, key (line_at c s w)) else acc)"

definition findFIFOVictimInSet :: "Cache \<Rightarrow> nat \<Rightarrow> nat" where
  "findFIFOVictimInSet c s =
     fst (foldl (oldest_step insertion_order c s) (0, insertion_order (line_at c s 0))
            [1 ..< nat (ways c)])"

definition findLRUVictimInSet :: "Cache \<Rightarrow> nat \<Rightarrow> nat" where
  "findLRUVictimInSet c s =
     fst (foldl (oldest_step last_access_time c s) (0, last_access_time (line_at c s 0))
            [1 ..< nat (ways c)])"

definition findVictimInSet :: "Cache \<Rightarrow> nat \<Rightarrow> nat" where
  "findVictimInSet c s =
     (case find (\<lambda>w. \<not> valid (line_at c s w)) [0 ..< nat (ways c)] of
        Some w \<Rightarrow> w
      | None \<Rightarrow>
          if replacement_policy c = FIFO then findFIFOVictimInSet c s
          else findLRUVictimInSet c s)"

text \<open>
  The search \<^verbatim>\<open>for (way ...) if (valid && tag == tag)\<close> that opens \<^verbatim>\<open>read\<close>,
  \<^verbatim>\<open>write\<close>, \<^verbatim>\<open>insert\<close> and \<^verbatim>\<open>evict\<close>: the first matching way.
\<close>

definition find_way :: "Cache \<Rightarrow> nat \<Rightarrow> nat \<Rightarrow> nat option" where
  "find_way c s t =
     find (\<lambda>w. valid (line_at c s w) \<and> tag (line_at c s w) = t) [0 ..< nat (ways c)]"

definition Cache_new ::
  "string \<Rightarrow> int \<Rightarrow> int \<Rightarrow> AssociativityType \<Rightarrow> ReplacementPolicy \<Rightarrow> WritePolicy \<Rightarrow> Cache" where
  "Cache_new cache_name total_lines blk_size assoc repl_pol wr_pol =
     (let (w, n) = (case assoc of
                      DIRECT_MAPPED \<Rightarrow> (1, total_lines)
                    | TWO_WAY \<Rightarrow> (2, total_lines div 2)
                    | FOUR_WAY \<Rightarrow> (4, total_lines div 4)
                    | FULLY_ASSOCIATIVE \<Rightarrow> (total_lines, 1))
      in \<lparr>name = cache_name, capacity = total_lines, block_size = blk_size,
          associativity = assoc, replacement_policy = repl_pol, write_policy = wr_pol,
          num_sets = n, ways = w,
          cache = replicate (nat n) (replicate (nat w) CacheLine_new),
          next_insertion_order = 0, access_counter = 0,
          hits = 0, misses = 0, writes = 0, write_hits = 0, write_misses = 0,
          writebacks = 0\<rparr>)"

text \<open>\<^verbatim>\<open>read\<close> returns whether the address hit, and the new state.\<close>

definition Cache_read :: "Cache \<Rightarrow> nat \<Rightarrow> bool \<times> Cache" where
  "Cache_read c addr =
     (let c1 = c\<lparr>access_counter := access_counter c + 1\<rparr>;
          set_index = getSetIndex c1 addr;
          t = getTag c1 addr
      in case find_way c1 set_index t of
           Some way \<Rightarrow>
             (let c2 = c1\<lparr>hits := hits c1 + 1\<rparr>;
                  c3 = (if replacement_policy c2 = LRU
                        then update_line c2 set_index way
                               (\<lambda>l. l\<lparr>last_access_time := access_counter c2\<rparr>)
                        else c2)
              in (True, c3))
         | None \<Rightarrow> (False, c1\<lparr>misses := misses c1 + 1\<rparr>))"

text \<open>
  The replacement that closes \<^verbatim>\<open>write\<close> (on a miss) and \<^verbatim>\<open>insert\<close> (when the
  block is absent): count a write-back when the victim is valid and dirty in a write-back
  cache, then overwrite the victim.  \<^verbatim>\<open>write\<close> stamps the line with the access
  counter as it is, \<^verbatim>\<open>insert\<close> increments the counter first.
\<close>

definition count_writeback :: "Cache \<Rightarrow> nat \<Rightarrow> nat \<Rightarrow> Cache" where
  "count_writeback c s w =
     (if valid (line_at c s w) \<and> dirty (line_at c s w) \<and> write_policy c = WRITE_BACK
      then c\<lparr>writebacks := writebacks c + 1\<rparr> else c)"

definition Cache_write :: "Cache \<Rightarrow> nat \<Rightarrow> bool \<times> Cache" where
  "Cache_write c addr =
     (let c1 = c\<lparr>access_counter := access_counter c + 1, writes := writes c + 1\<rparr>;
          set_index = getSetIndex c1 addr;
          t = getTag c1 addr
      in case find_way c1 set_index t of
           Some way \<Rightarrow>
             (let c2 = c1\<lparr>write_hits := write_hits c1 + 1, hits := hits c1 + 1\<rparr>;
                  c3 = (if replacement_policy c2 = LRU
                        then update_line c2 set_index way
                               (\<lambda>l. l\<lparr>last_access_time := access_counter c2\<rparr>)
                        else c2);
                  c4 = (if write_policy c3 = WRITE_BACK
                        then update_line c3 set_index way (\<lambda>l. l\<lparr>dirty := True\<rparr>)
                        else c3)
              in (True, c4))
         | None \<Rightarrow>
             (let c2 = c1\<lparr>write_misses := write_misses c1 + 1, misses := misses c1 + 1\<rparr>;
                  victim_way = findVictimInSet c2 set_index;
                  c3 = count_writeback c2 set_index victim_way;
                  c4 = update_line c3 set_index victim_way
                         (\<lambda>l. l\<lparr>valid := True, tag := t,
                                 insertion_order := next_insertion_order c3,
                                 last_access_time := access_counter c3\<rparr>);
                  c5 = c4\<lparr>next_insertion_order := next_insertion_order c4 + 1\<rparr>;
                  c6 = (if write_policy c5 = WRITE_BACK
                        then update_line c5 set_index victim_way (\<lambda>l. l\<lparr>dirty := True\<rparr>)
                        else update_line c5 set_index victim_way (\<lambda>l. l\<lparr>dirty := False\<rparr>))
              in (False, c6)))"

definition Cache_insert :: "Cache \<Rightarrow> nat \<Rightarrow> bool \<Rightarrow> Cache" where
  "Cache_insert c addr is_dirty =
     (let set_index = getSetIndex c addr;
          t = getTag c addr;
          actual_dirty = (if write_policy c = WRITE_BACK then is_dirty else False)
      in case find_way c set_index t of
           Some way \<Rightarrow>
             (let c1 = (if replacement_policy c = LRU
                        then update_line (c\<lparr>access_counter := access_counter c + 1\<rparr>)
                               set_index way
                               (\<lambda>l. l\<lparr>last_access_time := access_counter c + 1\<rparr>)
                        else c)
              in if actual_dirty
                 then update_line c1 set_index way (\<lambda>l. l\<lparr>dirty := True\<rparr>)
                 else c1)
         | None \<Rightarrow>
             (let victim_way = findVictimInSet c set_index;
                  c1 = count_writeback c set_index victim_way;
                  c2 = update_line c1 set_index victim_way
                         (\<lambda>l. l\<lparr>valid := True, tag := t, dirty := actual_dirty,
                                 insertion_order := next_insertion_order c1\<rparr>);
                  c3 = c2\<lparr>next_insertion_order := next_insertion_order c2 + 1\<rparr>;
                  c4 = c3\<lparr>access_counter := access_counter c3 + 1\<rparr>
              in update_line c4 set_index victim_way
                   (\<lambda>l. l\<lparr>last_access_time := access_counter c4\<rparr>)))"

text \<open>\<^verbatim>\<open>evict\<close> returns its result, the out-parameter \<^verbatim>\<open>was_dirty\<close> and the state.\<close>

definition Cache_evict :: "Cache \<Rightarrow> nat \<Rightarrow> bool \<times> bool \<times> Cache" where
  "Cache_evict c addr =
     (let set_index = getSetIndex c addr;
          t = getTag c addr
      in case find_way c set_index t of
           Some way \<Rightarrow>
             (let was_dirty = dirty (line_at c set_index way);
                  c1 = update_line c set_index way (\<lambda>l. l\<lparr>valid := False, dirty := False\<rparr>);
                  c2 = (if was_dirty \<and> write_policy c1 = WRITE_BACK
                        then c1\<lparr>writebacks := writebacks c1 + 1\<rparr> else c1)
              in (True, was_dirty, c2))
         | None \<Rightarrow> (False, False, c))"

text \<open>\<^verbatim>\<open>clear\<close>: the two nested loops over sets and ways, then the counters.\<close>

definition Cache_clear :: "Cache \<Rightarrow> Cache" where
  "Cache_clear c =
     (let c1 = foldl (\<lambda>cc (s, w). update_line cc s w (\<lambda>l. l\<lparr>valid := False, dirty := False\<rparr>)) c
                 (List.product [0 ..< nat (num_sets c)] [0 ..< nat (ways c)])
      in c1\<lparr>hits := 0, misses := 0, writes := 0, write_hits := 0, write_misses := 0,
            writebacks := 0, next_insertion_order := 0, access_counter := 0\<rparr>)"

definition getWritePolicy :: "Cache \<Rightarrow> WritePolicy" where
  "getWritePolicy c = write_policy c"

text \<open>The operations of one level and a run of them.\<close>

datatype cache_op = Read nat | Write nat | Insert nat bool | Evict nat | Clear

fun cache_step :: "Cache \<Rightarrow> cache_op \<Rightarrow> Cache" where
  "cache_step c (Read a) = snd (Cache_read c a)"
| "cache_step c (Write a) = snd (Cache_write c a)"
| "cache_step c (Insert a d) = Cache_insert c a d"
| "cache_step c (Evict a) = snd (snd (Cache_evict c a))"
| "cache_step c Clear = Cache_clear c"

definition cache_run :: "Cache \<Rightarrow> cache_op list \<Rightarrow> Cache" where
  "cache_run c ops = foldl cache_step c ops"

text \<open>Some line of the table is dirty; the block of an address is present; it is present and dirty.\<close>

definition some_dirty :: "Cache \<Rightarrow> bool" where
  "some_dirty c = list_ex (list_ex dirty) (cache c)"

definition present :: "Cache \<Rightarrow> nat \<Rightarrow> bool" where
  "present c addr = (find_way c (getSetIndex c addr) (getTag c addr) \<noteq> None)"

definition present_dirty :: "Cache \<Rightarrow> nat \<Rightarrow> bool" where
  "present_dirty c addr =
     (case find_way c (getSetIndex c addr) (getTag c addr) of
        Some way \<Rightarrow> dirty (line_at c (getSetIndex c addr) way)
      | None \<Rightarrow> False)"

text \<open>
  The shape that the constructor gives a level and every operation keeps: positive block
  size, set count and way count, and a table of \<^verbatim>\<open>num_sets\<close> sets of \<^verbatim>\<open>ways\<close>
  lines.  Outside of it the source divides by zero or indexes a vector out of range.
\<close>

definition cache_wf :: "Cache \<Rightarrow> bool" where
  "cache_wf c \<longleftrightarrow>
     0 < block_size c \<and> 0 < num_sets c \<and> 0 < ways c \<and>
     length (cache c) = nat (num_sets c) \<and>
     list_all (\<lambda>st. length st = nat (ways c)) (cache c)"

text \<open>
  What identifies the content of a line: every field but the LRU time stamp.  No line of
  the table is dirty.  The invariant of a write-through level.
\<close>

definition line_identity :: "CacheLine \<Rightarrow> bool \<times> nat \<times> bool \<times> int" where
  "line_identity l = (valid l, tag l, dirty l, insertion_order l)"

definition all_clean :: "Cache \<Rightarrow> bool" where
  "all_clean c \<longleftrightarrow> (\<forall>st \<in> set (cache c). \<forall>l \<in> set st. \<not> dirty l)"

definition wt_clean :: "Cache \<Rightarrow> bool" where
  "wt_clean c \<longleftrightarrow> write_policy c = WRITE_THROUGH \<and> all_clean c \<and> writebacks c = 0"

section \<open>Cache hierarchy: \<^verbatim>\<open>cache_simulator.cpp\<close>\<close>

text \<open>
  A level that is absent is \<open>None\<close> (the null pointer); the flags \<^verbatim>\<open>has_l2\<close> and
  \<^verbatim>\<open>has_l3\<close>, which the constructor sets exactly when the pointer is not null and which
  nothing changes afterwards, are read off the pointers.  The parameter \<^verbatim>\<open>verbose\<close> of
  \<^verbatim>\<open>read\<close> and \<^verbatim>\<open>write\<close> only guards output and is left out.
\<close>

record CacheHierarchy =
  l1 :: Cache
  l2 :: "Cache option"
  l3 :: "Cache option"
  total_accesses :: int
  total_reads :: int
  total_writes :: int
  l1_hits :: int
  l2_hits :: int
  l3_hits :: int
  memory_accesses :: int
  memory_writes :: int
  l1_penalty :: int
  l2_penalty :: int
  l3_penalty :: int
  memory_penalty :: int
  total_penalty_cycles :: int

definition has_l2 :: "CacheHierarchy \<Rightarrow> bool" where
  "has_l2 h \<longleftrightarrow> l2 h \<noteq> None"

definition has_l3 :: "CacheHierarchy \<Rightarrow> bool" where
  "has_l3 h \<longleftrightarrow> l3 h \<noteq> None"

definition CacheHierarchy_new ::
  "int \<Rightarrow> int \<Rightarrow> AssociativityType \<Rightarrow> ReplacementPolicy \<Rightarrow> WritePolicy \<Rightarrow>
   int \<Rightarrow> int \<Rightarrow> AssociativityType \<Rightarrow> ReplacementPolicy \<Rightarrow> WritePolicy \<Rightarrow>
   int \<Rightarrow> int \<Rightarrow> AssociativityType \<Rightarrow> ReplacementPolicy \<Rightarrow> WritePolicy \<Rightarrow> CacheHierarchy" where
  "CacheHierarchy_new l1_lines l1_block l1_assoc l1_repl l1_write
                      l2_lines l2_block l2_assoc l2_repl l2_write
                      l3_lines l3_block l3_assoc l3_repl l3_write =
     \<lparr>l1 = Cache_new ''L1'' l1_lines l1_block l1_assoc l1_repl l1_write,
      l2 = (if l2_lines > 0
            then Some (Cache_new ''L2'' l2_lines l2_block l2_assoc l2_repl l2_write) else None),
      l3 = (if l3_lines > 0
            then Some (Cache_new ''L3'' l3_lines l3_block l3_assoc l3_repl l3_write) else None),
      total_accesses = 0, total_reads = 0, total_writes = 0,
      l1_hits = 0, l2_hits = 0, l3_hits = 0, memory_accesses = 0, memory_writes = 0,
      l1_penalty = 1, l2_penalty = 10, l3_penalty = 50, memory_penalty = 100,
      total_penalty_cycles = 0\<rparr>"

text \<open>
  \<^verbatim>\<open>read\<close>, by the steps of the source.  Each step takes the penalty accumulated so far;
  the result says whether memory was accessed.  Step 4: the memory access and the refill
  of every level.
\<close>

definition read_memory :: "CacheHierarchy \<Rightarrow> int \<Rightarrow> nat \<Rightarrow> bool \<times> CacheHierarchy" where
  "read_memory h penalty addr =
     (let h1 = h\<lparr>memory_accesses := memory_accesses h + 1\<rparr>;
          penalty1 = penalty + memory_penalty h1;
          h2 = h1\<lparr>l3 := map_option (\<lambda>c. Cache_insert c addr False) (l3 h1)\<rparr>;
          h3 = h2\<lparr>l2 := map_option (\<lambda>c. Cache_insert c addr False) (l2 h2)\<rparr>;
          h4 = h3\<lparr>l1 := Cache_insert (l1 h3) addr False\<rparr>
      in (True, h4\<lparr>total_penalty_cycles := total_penalty_cycles h4 + penalty1\<rparr>))"

text \<open>Step 3: L3, if there is one.\<close>

definition read_l3 :: "CacheHierarchy \<Rightarrow> int \<Rightarrow> nat \<Rightarrow> bool \<times> CacheHierarchy" where
  "read_l3 h penalty addr =
     (case l3 h of
        None \<Rightarrow> read_memory h penalty addr
      | Some c3 \<Rightarrow>
          let (hit, c3') = Cache_read c3 addr;
              h1 = h\<lparr>l3 := Some c3'\<rparr>
          in if hit then
               (let h2 = h1\<lparr>l3_hits := l3_hits h1 + 1\<rparr>;
                    penalty1 = penalty + 50;
                    h3 = h2\<lparr>l2 := map_option (\<lambda>c. Cache_insert c addr False) (l2 h2)\<rparr>;
                    h4 = h3\<lparr>l1 := Cache_insert (l1 h3) addr False\<rparr>
                in (False, h4\<lparr>total_penalty_cycles := total_penalty_cycles h4 + penalty1\<rparr>))
             else read_memory h1 (penalty + l3_penalty h1) addr)"

text \<open>Step 2: L2, if there is one.\<close>

definition read_l2 :: "CacheHierarchy \<Rightarrow> int \<Rightarrow> nat \<Rightarrow> bool \<times> CacheHierarchy" where
  "read_l2 h penalty addr =
     (case l2 h of
        None \<Rightarrow> read_l3 h penalty addr
      | Some c2 \<Rightarrow>
          let (hit, c2') = Cache_read c2 addr;
              h1 = h\<lparr>l2 := Some c2'\<rparr>
          in if hit then
               (let h2 = h1\<lparr>l2_hits := l2_hits h1 + 1\<rparr>;
                    penalty1 = penalty + 10;
                    h3 = h2\<lparr>l1 := Cache_insert (l1 h2) addr False\<rparr>
                in (False, h3\<lparr>total_penalty_cycles := total_penalty_cycles h3 + penalty1\<rparr>))
             else read_l3 h1 (penalty + l2_penalty h1) addr)"

text \<open>Step 1: the counters and L1.\<close>

definition CacheHierarchy_read :: "CacheHierarchy \<Rightarrow> nat \<Rightarrow> bool \<times> CacheHierarchy" where
  "CacheHierarchy_read h addr =
     (let h0 = h\<lparr>total_accesses := total_accesses h + 1, total_reads := total_reads h + 1\<rparr>;
          (hit, c1') = Cache_read (l1 h0) addr;
          h1 = h0\<lparr>l1 := c1'\<rparr>
      in if hit then
           (False, h1\<lparr>l1_hits := l1_hits h1 + 1,
                      total_penalty_cycles := total_penalty_cycles h1 + 1\<rparr>)
         else read_l2 h1 (0 + l1_penalty h1) addr)"

text \<open>
  \<^verbatim>\<open>write\<close>, by the steps of the source.  Step 4: one memory access to fetch the block,
  a memory write when L1 is write-through, and the refill of every level with
  \<^verbatim>\<open>mark_dirty\<close>.
\<close>

definition write_memory :: "CacheHierarchy \<Rightarrow> int \<Rightarrow> nat \<Rightarrow> bool \<times> CacheHierarchy" where
  "write_memory h penalty addr =
     (let h1 = h\<lparr>memory_accesses := memory_accesses h + 1\<rparr>;
          penalty1 = penalty + memory_penalty h1;
          is_write_through = (getWritePolicy (l1 h1) = WRITE_THROUGH);
          h2 = (if is_write_through then h1\<lparr>memory_writes := memory_writes h1 + 1\<rparr> else h1);
          mark_dirty = (\<not> is_write_through);
          h3 = h2\<lparr>l3 := map_option (\<lambda>c. Cache_insert c addr mark_dirty) (l3 h2)\<rparr>;
          h4 = h3\<lparr>l2 := map_option (\<lambda>c. Cache_insert c addr mark_dirty) (l2 h3)\<rparr>;
          h5 = h4\<lparr>l1 := Cache_insert (l1 h4) addr mark_dirty\<rparr>
      in (True, h5\<lparr>total_penalty_cycles := total_penalty_cycles h5 + penalty1\<rparr>))"

definition write_l3 :: "CacheHierarchy \<Rightarrow> int \<Rightarrow> nat \<Rightarrow> bool \<times> CacheHierarchy" where
  "write_l3 h penalty addr =
     (case l3 h of
        None \<Rightarrow> write_memory h penalty addr
      | Some c3 \<Rightarrow>
          let (hit, c3') = Cache_write c3 addr;
              h1 = h\<lparr>l3 := Some c3'\<rparr>
          in if hit then
               (let h2 = h1\<lparr>l3_hits := l3_hits h1 + 1\<rparr>;
                    penalty1 = penalty + 50;
                    is_write_through = (getWritePolicy (l1 h2) = WRITE_THROUGH);
                    h3 = (if is_write_through
                          then h2\<lparr>memory_writes := memory_writes h2 + 1\<rparr> else h2);
                    mark_dirty = (\<not> is_write_through);
                    h4 = h3\<lparr>l2 := map_option (\<lambda>c. Cache_insert c addr mark_dirty) (l2 h3)\<rparr>;
                    h5 = h4\<lparr>l1 := Cache_insert (l1 h4) addr mark_dirty\<rparr>
                in (False, h5\<lparr>total_penalty_cycles := total_penalty_cycles h5 + penalty1\<rparr>))
             else write_memory h1 (penalty + l3_penalty h1) addr)"

definition write_l2 :: "CacheHierarchy \<Rightarrow> int \<Rightarrow> nat \<Rightarrow> bool \<times> CacheHierarchy" where
  "write_l2 h penalty addr =
     (case l2 h of
        None \<Rightarrow> write_l3 h penalty addr
      | Some c2 \<Rightarrow>
          let (hit, c2') = Cache_write c2 addr;
              h1 = h\<lparr>l2 := Some c2'\<rparr>
          in if hit then
               (let h2 = h1\<lparr>l2_hits := l2_hits h1 + 1\<rparr>;
                    penalty1 = penalty + 10;
                    h3 = (if getWritePolicy (l1 h2) = WRITE_THROUGH
                          then h2\<lparr>memory_writes := memory_writes h2 + 1\<rparr> else h2);
                    h4 = h3\<lparr>l1 := Cache_insert (l1 h3) addr
                                    (getWritePolicy (l1 h3) = WRITE_BACK)\<rparr>
                in (False, h4\<lparr>total_penalty_cycles := total_penalty_cycles h4 + penalty1\<rparr>))
             else write_l3 h1 (penalty + l2_penalty h1) addr)"

definition CacheHierarchy_write :: "CacheHierarchy \<Rightarrow> nat \<Rightarrow> bool \<times> CacheHierarchy" where
  "CacheHierarchy_write h addr =
     (let h0 = h\<lparr>total_accesses := total_accesses h + 1, total_writes := total_writes h + 1\<rparr>;
          (hit, c1') = Cache_write (l1 h0) addr;
          h1 = h0\<lparr>l1 := c1'\<rparr>
      in if hit then
           (let h2 = h1\<lparr>l1_hits := l1_hits h1 + 1\<rparr>;
                h3 = (if getWritePolicy (l1 h2) = WRITE_THROUGH
                      then h2\<lparr>memory_writes := memory_writes h2 + 1\<rparr> else h2)
            in (False, h3\<lparr>total_penalty_cycles := total_penalty_cycles h3 + 1\<rparr>))
         else write_l2 h1 (0 + l1_penalty h1) addr)"

definition CacheHierarchy_access :: "CacheHierarchy \<Rightarrow> nat \<Rightarrow> bool \<times> CacheHierarchy" where
  "CacheHierarchy_access h addr = CacheHierarchy_read h addr"

text \<open>A run of reads and writes; the results of the calls are collected in call order.\<close>

datatype hier_op = HRead nat | HWrite nat

fun hier_step :: "CacheHierarchy \<Rightarrow> hier_op \<Rightarrow> bool \<times> CacheHierarchy" where
  "hier_step h (HRead a) = CacheHierarchy_read h a"
| "hier_step h (HWrite a) = CacheHierarchy_write h a"

definition hier_run :: "CacheHierarchy \<Rightarrow> hier_op list \<Rightarrow> CacheHierarchy" where
  "hier_run h ops = foldl (\<lambda>h x. snd (hier_step h x)) h ops"

text \<open>
  The block of an address is present (present and dirty) in a level that may be absent;
  the write policy of such a level; such a level is well formed, and so is every level of a
  hierarchy.
\<close>

definition present_opt :: "Cache option \<Rightarrow> nat \<Rightarrow> bool" where
  "present_opt lv addr = (case lv of None \<Rightarrow> False | Some c \<Rightarrow> present c addr)"

definition present_dirty_opt :: "Cache option \<Rightarrow> nat \<Rightarrow> bool" where
  "present_dirty_opt lv addr = (case lv of None \<Rightarrow> False | Some c \<Rightarrow> present_dirty c addr)"

definition write_back_opt :: "Cache option \<Rightarrow> bool" where
  "write_back_opt lv = (case lv of None \<Rightarrow> False | Some c \<Rightarrow> write_policy c = WRITE_BACK)"

definition cache_wf_opt :: "Cache option \<Rightarrow> bool" where
  "cache_wf_opt lv = (case lv of None \<Rightarrow> True | Some c \<Rightarrow> cache_wf c)"

definition hier_wf :: "CacheHierarchy \<Rightarrow> bool" where
  "hier_wf h \<longleftrightarrow> cache_wf (l1 h) \<and> cache_wf_opt (l2 h) \<and> cache_wf_opt (l3 h)"

text \<open>
  Three hierarchies after the reads of the addresses 0 and 64, which leave block 0 in L2 but
  not in the single line of L1: L1 write-back over a write-through L2; both write-back;
  L1 write-through over a write-back L2.  And a fresh hierarchy of three write-back levels.
\<close>

definition wb_over_wt :: CacheHierarchy where
  "wb_over_wt =
     hier_run (CacheHierarchy_new 1 64 DIRECT_MAPPED LRU WRITE_BACK
                                  2 64 DIRECT_MAPPED LRU WRITE_THROUGH
                                  0 64 DIRECT_MAPPED LRU WRITE_THROUGH) [HRead 0, HRead 64]"

definition wb_over_wb :: CacheHierarchy where
  "wb_over_wb =
     hier_run (CacheHierarchy_new 1 64 DIRECT_MAPPED LRU WRITE_BACK
                                  2 64 DIRECT_MAPPED LRU WRITE_BACK
                                  0 64 DIRECT_MAPPED LRU WRITE_BACK) [HRead 0, HRead 64]"

definition wt_over_wb :: CacheHierarchy where
  "wt_over_wb =
     hier_run (CacheHierarchy_new 1 64 DIRECT_MAPPED LRU WRITE_THROUGH
                                  2 64 DIRECT_MAPPED LRU WRITE_BACK
                                  0 64 DIRECT_MAPPED LRU WRITE_BACK) [HRead 0, HRead 64]"

definition fresh_wb3 :: CacheHierarchy where
  "fresh_wb3 =
     CacheHierarchy_new 1 64 DIRECT_MAPPED LRU WRITE_BACK
                        2 64 DIRECT_MAPPED LRU WRITE_BACK
                        4 64 DIRECT_MAPPED LRU WRITE_BACK"

section \<open>Contiguous allocator: \<^verbatim>\<open>memory_allocator.cpp\<close>\<close>

text \<open>
  The doubly linked list of blocks that starts at \<^verbatim>\<open>head\<close> is the list of its blocks
  in list order; a pointer to a block is its position in that list, the null pointer is
  \<open>None\<close>.  The field \<^verbatim>\<open>size\<close> is called \<open>size_bytes\<close>.
\<close>

record MemoryBlock =
  start_address :: nat
  size_bytes :: nat
  is_allocated :: bool
  block_id :: int

datatype AllocationStrategy = FIRST_FIT | BEST_FIT | WORST_FIT

record MemoryManager =
  total_memory :: nat
  blocks :: "MemoryBlock list"
  strategy :: AllocationStrategy
  next_block_id :: int
  allocation_attempts :: int
  allocation_successes :: int
  allocation_failures :: int

definition MemoryManager_new :: "nat \<Rightarrow> MemoryManager" where
  "MemoryManager_new sz =
     \<lparr>total_memory = sz,
      blocks = [\<lparr>start_address = 0, size_bytes = sz, is_allocated = False, block_id = -1\<rparr>],
      strategy = FIRST_FIT, next_block_id = 1,
      allocation_attempts = 0, allocation_successes = 0, allocation_failures = 0\<rparr>"

text \<open>\<^verbatim>\<open>findBlockFirstFit\<close>: the walk from position \<open>i\<close> on.\<close>

fun first_fit_from :: "nat \<Rightarrow> nat \<Rightarrow> MemoryBlock list \<Rightarrow> nat option" where
  "first_fit_from sz i [] = None"
| "first_fit_from sz i (b # bs) =
     (if \<not> is_allocated b \<and> size_bytes b \<ge> sz then Some i
      else first_fit_from sz (Suc i) bs)"

definition findBlockFirstFit :: "MemoryManager \<Rightarrow> nat \<Rightarrow> nat option" where
  "findBlockFirstFit s sz = first_fit_from sz 0 (blocks s)"

text \<open>
  \<^verbatim>\<open>findBlockBestFit\<close>: the loop state is \<open>(best, min_diff)\<close>; a block replaces the
  best one only when its slack is strictly smaller.
\<close>

fun best_fit_from ::
  "nat \<Rightarrow> nat \<Rightarrow> nat option \<times> nat \<Rightarrow> MemoryBlock list \<Rightarrow> nat option" where
  "best_fit_from sz i (best, min_diff) [] = best"
| "best_fit_from sz i (best, min_diff) (b # bs) =
     (if \<not> is_allocated b \<and> size_bytes b \<ge> sz \<and> size_bytes b - sz < min_diff
      then best_fit_from sz (Suc i) (Some i, size_bytes b - sz) bs
      else best_fit_from sz (Suc i) (best, min_diff) bs)"

definition findBlockBestFit :: "MemoryManager \<Rightarrow> nat \<Rightarrow> nat option" where
  "findBlockBestFit s sz = best_fit_from sz 0 (None, total_memory s + 1) (blocks s)"

text \<open>\<^verbatim>\<open>findBlockWorstFit\<close>: the loop state is \<open>(worst, max_size)\<close>.\<close>

fun worst_fit_from ::
  "nat \<Rightarrow> nat \<Rightarrow> nat option \<times> nat \<Rightarrow> MemoryBlock list \<Rightarrow> nat option" where
  "worst_fit_from sz i (worst, max_size) [] = worst"
| "worst_fit_from sz i (worst, max_size) (b # bs) =
     (if \<not> is_allocated b \<and> size_bytes b \<ge> sz \<and> size_bytes b > max_size
      then worst_fit_from sz (Suc i) (Some i, size_bytes b) bs
      else worst_fit_from sz (Suc i) (worst, max_size) bs)"

definition findBlockWorstFit :: "MemoryManager \<Rightarrow> nat \<Rightarrow> nat option" where
  "findBlockWorstFit s sz = worst_fit_from sz 0 (None, 0) (blocks s)"

text \<open>
  \<^verbatim>\<open>splitBlock(block, size)\<close> on the block at position \<open>i\<close>: a larger block keeps
  \<open>size\<close> bytes and a new free block with the rest is linked in right behind it.
\<close>

definition MemoryManager_splitBlock :: "MemoryBlock list \<Rightarrow> nat \<Rightarrow> nat \<Rightarrow> MemoryBlock list" where
  "MemoryManager_splitBlock bs i sz =
     (let block = bs ! i in
      if size_bytes block > sz then
        take i bs
        @ [block\<lparr>size_bytes := sz\<rparr>,
           \<lparr>start_address = start_address block + sz, size_bytes = size_bytes block - sz,
            is_allocated = False, block_id = -1\<rparr>]
        @ drop (Suc i) bs
      else bs)"

text \<open>
  \<^verbatim>\<open>coalesceBlocks\<close>: one pass from the head; after a fusion the same block is looked
  at again (\<^verbatim>\<open>continue\<close>), otherwise the walk moves on.
\<close>

fun coalesceBlocks :: "MemoryBlock list \<Rightarrow> MemoryBlock list" where
  "coalesceBlocks (c # n # rest) =
     (if \<not> is_allocated c \<and> \<not> is_allocated n
      then coalesceBlocks (c\<lparr>size_bytes := size_bytes c + size_bytes n\<rparr> # rest)
      else c # coalesceBlocks (n # rest))"
| "coalesceBlocks bs = bs"

definition setStrategy :: "MemoryManager \<Rightarrow> AllocationStrategy \<Rightarrow> MemoryManager" where
  "setStrategy s st = s\<lparr>strategy := st\<rparr>"

text \<open>\<^verbatim>\<open>allocate\<close> returns the new id, or \<open>-1\<close>, and the new state.\<close>

definition MemoryManager_allocate :: "MemoryManager \<Rightarrow> nat \<Rightarrow> int \<times> MemoryManager" where
  "MemoryManager_allocate s sz =
     (let s0 = s\<lparr>allocation_attempts := allocation_attempts s + 1\<rparr> in
      if sz = 0 then (-1, s0\<lparr>allocation_failures := allocation_failures s0 + 1\<rparr>)
      else
        case (case strategy s0 of
                FIRST_FIT \<Rightarrow> findBlockFirstFit s0 sz
              | BEST_FIT \<Rightarrow> findBlockBestFit s0 sz
              | WORST_FIT \<Rightarrow> findBlockWorstFit s0 sz) of
          None \<Rightarrow> (-1, s0\<lparr>allocation_failures := allocation_failures s0 + 1\<rparr>)
        | Some i \<Rightarrow>
            let bs1 = MemoryManager_splitBlock (blocks s0) i sz;
                bs2 = bs1[i := (bs1 ! i)\<lparr>is_allocated := True, block_id := next_block_id s0\<rparr>]
            in (next_block_id s0,
                s0\<lparr>blocks := bs2,
                   allocation_successes := allocation_successes s0 + 1,
                   next_block_id := next_block_id s0 + 1\<rparr>))"

text \<open>
  The scan of \<^verbatim>\<open>deallocate\<close>: the first allocated block with the id is marked free,
  and the result says whether there was one.
\<close>

fun release_first :: "int \<Rightarrow> MemoryBlock list \<Rightarrow> bool \<times> MemoryBlock list" where
  "release_first bid [] = (False, [])"
| "release_first bid (b # bs) =
     (if is_allocated b \<and> block_id b = bid
      then (True, b\<lparr>is_allocated := False, block_id := -1\<rparr> # bs)
      else let (found, bs') = release_first bid bs in (found, b # bs'))"

definition MemoryManager_deallocate :: "MemoryManager \<Rightarrow> int \<Rightarrow> bool \<times> MemoryManager" where
  "MemoryManager_deallocate s bid =
     (let (found, bs) = release_first bid (blocks s) in
      if found then (True, s\<lparr>blocks := coalesceBlocks bs\<rparr>)
      else (False, s))"

datatype mm_op = Malloc nat | Free int | SetStrategy AllocationStrategy

fun mm_step :: "MemoryManager \<Rightarrow> mm_op \<Rightarrow> MemoryManager" where
  "mm_step s (Malloc n) = snd (MemoryManager_allocate s n)"
| "mm_step s (Free i) = snd (MemoryManager_deallocate s i)"
| "mm_step s (SetStrategy st) = setStrategy s st"

definition mm_run :: "MemoryManager \<Rightarrow> mm_op list \<Rightarrow> MemoryManager" where
  "mm_run s ops = foldl mm_step s ops"

text \<open>
  The two layout properties of a block list: no two neighbours are both free, and the
  blocks tile the addresses from \<open>a\<close> on without gap or overlap.
\<close>

fun no_adjacent_free :: "MemoryBlock list \<Rightarrow> bool" where
  "no_adjacent_free (c # n # rest) =
     ((is_allocated c \<or> is_allocated n) \<and> no_adjacent_free (n # rest))"
| "no_adjacent_free bs = True"

fun tiles_from :: "nat \<Rightarrow> MemoryBlock list \<Rightarrow> bool" where
  "tiles_from a [] = True"
| "tiles_from a (b # bs) = (start_address b = a \<and> tiles_from (a + size_bytes b) bs)"

text \<open>The ids of the allocated blocks, in list order.\<close>

definition alloc_ids :: "MemoryBlock list \<Rightarrow> int list" where
  "alloc_ids bs = map block_id (filter is_allocated bs)"

text \<open>Position \<open>i\<close> holds a free block of at least \<open>sz\<close> bytes.\<close>

definition fits :: "nat \<Rightarrow> MemoryBlock list \<Rightarrow> nat \<Rightarrow> bool" where
  "fits sz bs i \<longleftrightarrow> i < length bs \<and> \<not> is_allocated (bs ! i) \<and> sz \<le> size_bytes (bs ! i)"

text \<open>The block that the current strategy selects.\<close>

definition chosen :: "MemoryManager \<Rightarrow> nat \<Rightarrow> nat option" where
  "chosen s sz =
     (case strategy s of
        FIRST_FIT \<Rightarrow> findBlockFirstFit s sz
      | BEST_FIT \<Rightarrow> findBlockBestFit s sz
      | WORST_FIT \<Rightarrow> findBlockWorstFit s sz)"

text \<open>What a successful allocation of \<open>sz\<close> bytes puts in the place of the free block \<open>b\<close>.\<close>

definition placed :: "MemoryBlock \<Rightarrow> nat \<Rightarrow> int \<Rightarrow> MemoryBlock list" where
  "placed b sz nid =
     (if size_bytes b > sz
      then [b\<lparr>size_bytes := sz, is_allocated := True, block_id := nid\<rparr>,
            \<lparr>start_address = start_address b + sz, size_bytes = size_bytes b - sz,
             is_allocated = False, block_id = -1\<rparr>]
      else [b\<lparr>is_allocated := True, block_id := nid\<rparr>])"

text \<open>
  The invariant of the allocator: the layout properties, and the ids of the allocated
  blocks are pairwise different and below \<^verbatim>\<open>next_block_id\<close>.
\<close>

definition mm_inv :: "MemoryManager \<Rightarrow> bool" where
  "mm_inv s \<longleftrightarrow>
     no_adjacent_free (blocks s) \<and> tiles_from 0 (blocks s) \<and>
     sum_list (map size_bytes (blocks s)) = total_memory s \<and>
     distinct (alloc_ids (blocks s)) \<and>
     (\<forall>k \<in> set (alloc_ids (blocks s)). k < next_block_id s)"

text \<open>An id that was issued and is not in use any more.\<close>

definition mm_retired :: "MemoryManager \<Rightarrow> int \<Rightarrow> bool" where
  "mm_retired s i \<longleftrightarrow> mm_inv s \<and> i \<notin> set (alloc_ids (blocks s)) \<and> i < next_block_id s"

section \<open>Buddy allocator: \<^verbatim>\<open>buddy_allocator.cpp\<close>\<close>

text \<open>
  A free list is the list of its blocks from the head on; the \<^verbatim>\<open>next\<close> pointer of a
  block is its position in that list.  The field \<^verbatim>\<open>size\<close> is called \<open>size_bytes\<close>.
\<close>

record BuddyBlock =
  address :: nat
  size_bytes :: nat
  is_free :: bool
  block_id :: int

text \<open>The constructor \<^verbatim>\<open>BuddyBlock(addr, sz)\<close> with the default id.\<close>

definition BuddyBlock_new :: "nat \<Rightarrow> nat \<Rightarrow> BuddyBlock" where
  "BuddyBlock_new addr sz = \<lparr>address = addr, size_bytes = sz, is_free = True, block_id = -1\<rparr>"

record AllocationRecord =
  address :: nat
  requested_size :: nat
  actual_size :: nat
  order :: int

record BuddyAllocator =
  total_memory :: nat
  min_block_size :: nat
  max_order :: int
  free_lists :: "BuddyBlock list list"
  allocated_blocks :: "int \<rightharpoonup> AllocationRecord"
  next_block_id :: int
  total_allocations :: int
  total_deallocations :: int
  successful_allocations :: int
  failed_allocations :: int
  splits :: int
  merges :: int
  total_internal_fragmentation :: nat

definition isPowerOfTwo :: "nat \<Rightarrow> bool" where
  "isPowerOfTwo n \<longleftrightarrow> n > 0 \<and> n AND (n - 1) = 0"

text \<open>
  The loop \<^verbatim>\<open>while (temp > 1) { temp /= 2; order++; }\<close> of \<^verbatim>\<open>getOrder\<close> and of the
  constructor.
\<close>

function halving_loop :: "nat \<Rightarrow> int \<Rightarrow> int" where
  "halving_loop temp ord = (if temp > 1 then halving_loop (temp div 2) (ord + 1) else ord)"
  by pat_completeness auto
termination
  by (relation "measure (\<lambda>(temp, ord). temp)") auto

declare halving_loop.simps [simp del]

definition getOrder :: "BuddyAllocator \<Rightarrow> nat \<Rightarrow> int" where
  "getOrder s sz =
     (if sz \<le> min_block_size s then 0
      else halving_loop (sz div min_block_size s) 0)"

text \<open>\<^verbatim>\<open>min_block_size * (1 << order)\<close>, for an order that is not negative.\<close>

definition getBlockSize :: "BuddyAllocator \<Rightarrow> int \<Rightarrow> nat" where
  "getBlockSize s ord = min_block_size s * 2 ^ nat ord"

definition getBuddyAddress :: "nat \<Rightarrow> nat \<Rightarrow> nat" where
  "getBuddyAddress addr sz = addr XOR sz"

text \<open>
  The loop \<^verbatim>\<open>while (power < size) power *= 2;\<close> of \<^verbatim>\<open>nextPowerOfTwo\<close> does not
  return when \<^verbatim>\<open>power\<close> is 0; not returning is the value \<open>None\<close>.
\<close>

partial_function (option) doubling_loop :: "nat \<Rightarrow> nat \<Rightarrow> nat option" where
  "doubling_loop pw sz = (if pw < sz then doubling_loop (pw * 2) sz else Some pw)"

declare doubling_loop.simps [code]

definition nextPowerOfTwo :: "BuddyAllocator \<Rightarrow> nat \<Rightarrow> nat option" where
  "nextPowerOfTwo s sz =
     (if sz = 0 then Some (min_block_size s)
      else if sz \<le> min_block_size s then Some (min_block_size s)
      else doubling_loop (min_block_size s) sz)"

text \<open>
  \<^verbatim>\<open>splitBlock(order)\<close>: take the head of the list one order up (splitting further up
  first when that list is empty), and push its lower half and then its upper half on the
  list of \<open>order\<close>, so that the upper half becomes the head.
\<close>

function BuddyAllocator_splitBlock :: "BuddyAllocator \<Rightarrow> int \<Rightarrow> bool \<times> BuddyAllocator" where
  "BuddyAllocator_splitBlock s ord =
     (if ord \<ge> max_order s then (False, s)
      else
        let (ok, s1) = (if free_lists s ! nat (ord + 1) = []
                        then BuddyAllocator_splitBlock s (ord + 1) else (True, s))
        in if \<not> ok then (False, s1)
           else if free_lists s1 ! nat (ord + 1) = [] then (False, s1)
           else
             let block = hd (free_lists s1 ! nat (ord + 1));
                 fl1 = (free_lists s1)[nat (ord + 1) := tl (free_lists s1 ! nat (ord + 1))];
                 new_size = getBlockSize s1 ord;
                 buddy1 = BuddyBlock_new (BuddyBlock.address block) new_size;
                 buddy2 = BuddyBlock_new (BuddyBlock.address block + new_size) new_size;
                 fl2 = fl1[nat ord := buddy1 # fl1 ! nat ord];
                 fl3 = fl2[nat ord := buddy2 # fl2 ! nat ord]
             in (True, s1\<lparr>free_lists := fl3, splits := splits s1 + 1\<rparr>))"
  by pat_completeness auto
termination
  by (relation "measure (\<lambda>(s, ord). nat (max_order s - ord))") auto

declare BuddyAllocator_splitBlock.simps [simp del]

text \<open>
  The list part of \<^verbatim>\<open>removeFromFreeList\<close>: unlink the first block with the given
  address and return it, or return \<open>None\<close> (the null pointer) and the list as it was.
\<close>

fun remove_first_address :: "nat \<Rightarrow> BuddyBlock list \<Rightarrow> BuddyBlock option \<times> BuddyBlock list" where
  "remove_first_address addr [] = (None, [])"
| "remove_first_address addr (b # bs) =
     (if BuddyBlock.address b = addr then (Some b, bs)
      else let (r, bs') = remove_first_address addr bs in (r, b # bs'))"

definition removeFromFreeList ::
  "BuddyAllocator \<Rightarrow> int \<Rightarrow> nat \<Rightarrow> BuddyBlock option \<times> BuddyAllocator" where
  "removeFromFreeList s ord addr =
     (let (r, bs) = remove_first_address addr (free_lists s ! nat ord)
      in (r, s\<lparr>free_lists := (free_lists s)[nat ord := bs]\<rparr>))"

function mergeBlocks :: "BuddyAllocator \<Rightarrow> nat \<Rightarrow> int \<Rightarrow> bool \<times> BuddyAllocator" where
  "mergeBlocks s addr ord =
     (if ord \<ge> max_order s then (False, s)
      else
        let block_size = getBlockSize s ord;
            buddy_addr = getBuddyAddress addr block_size;
            (buddy, s1) = removeFromFreeList s ord buddy_addr
        in if buddy = None then (False, s1)
           else
             let s2 = snd (removeFromFreeList s1 ord addr);
                 merged_addr = (if addr < buddy_addr then addr else buddy_addr);
                 merged_size = block_size * 2;
                 merged = BuddyBlock_new merged_addr merged_size;
                 s3 = s2\<lparr>free_lists := (free_lists s2)
                            [nat (ord + 1) := merged # free_lists s2 ! nat (ord + 1)],
                         merges := merges s2 + 1\<rparr>
             in (True, snd (mergeBlocks s3 merged_addr (ord + 1))))"
  by pat_completeness auto
termination
  by (relation "measure (\<lambda>(s, addr, ord). nat (max_order s - ord))")
     (auto simp: removeFromFreeList_def split: prod.splits)

declare mergeBlocks.simps [simp del]

text \<open>
  The constructor: a size that is not a power of two is replaced by the default (1024 for
  the arena, 16 for the smallest block).
\<close>

definition BuddyAllocator_new :: "nat \<Rightarrow> nat \<Rightarrow> BuddyAllocator" where
  "BuddyAllocator_new memory_size min_size =
     (let total = (if isPowerOfTwo memory_size then memory_size else 1024);
          mn = (if isPowerOfTwo min_size then min_size else 16);
          mo = halving_loop (total div mn) 0
      in \<lparr>total_memory = total, min_block_size = mn, max_order = mo,
          free_lists = (replicate (nat mo + 1) [])[nat mo := [BuddyBlock_new 0 total]],
          allocated_blocks = Map.empty,
          next_block_id = 1,
          total_allocations = 0, total_deallocations = 0,
          successful_allocations = 0, failed_allocations = 0,
          splits = 0, merges = 0, total_internal_fragmentation = 0\<rparr>)"

text \<open>
  \<^verbatim>\<open>allocate\<close> returns the block id (\<open>-1\<close> on failure) and the new state; the result
  is \<open>None\<close> when the rounding loop does not return.
\<close>

definition BuddyAllocator_allocate ::
  "BuddyAllocator \<Rightarrow> nat \<Rightarrow> (int \<times> BuddyAllocator) option" where
  "BuddyAllocator_allocate s requested =
     (let s0 = s\<lparr>total_allocations := total_allocations s + 1\<rparr> in
      if requested = 0 then
        Some (-1, s0\<lparr>failed_allocations := failed_allocations s0 + 1\<rparr>)
      else if requested > total_memory s0 then
        Some (-1, s0\<lparr>failed_allocations := failed_allocations s0 + 1\<rparr>)
      else
        case nextPowerOfTwo s0 requested of
          None \<Rightarrow> None
        | Some actual \<Rightarrow>
            let ord = getOrder s0 actual;
                (ok, s1) = (if free_lists s0 ! nat ord = []
                            then BuddyAllocator_splitBlock s0 ord else (True, s0))
            in if \<not> ok then
                 Some (-1, s1\<lparr>failed_allocations := failed_allocations s1 + 1\<rparr>)
               else if free_lists s1 ! nat ord = [] then
                 Some (-1, s1\<lparr>failed_allocations := failed_allocations s1 + 1\<rparr>)
               else
                 let block = hd (free_lists s1 ! nat ord);
                     bid = next_block_id s1;
                     internal_frag = actual - requested;
                     rec = \<lparr>address = BuddyBlock.address block, requested_size = requested,
                            actual_size = actual, order = ord\<rparr>
                 in Some (bid,
                      s1\<lparr>free_lists := (free_lists s1)[nat ord := tl (free_lists s1 ! nat ord)],
                         next_block_id := next_block_id s1 + 1,
                         successful_allocations := successful_allocations s1 + 1,
                         total_internal_fragmentation :=
                           total_internal_fragmentation s1 + internal_frag,
                         allocated_blocks := (allocated_blocks s1)(bid \<mapsto> rec)\<rparr>))"

text \<open>
  \<^verbatim>\<open>deallocate\<close>: an id that is not a key of \<^verbatim>\<open>allocated_blocks\<close> returns
  \<^verbatim>\<open>false\<close> before anything is written.  The source reads the record through a
  reference after erasing it from the map; the model uses the values it had before.
\<close>

definition BuddyAllocator_deallocate :: "BuddyAllocator \<Rightarrow> int \<Rightarrow> bool \<times> BuddyAllocator" where
  "BuddyAllocator_deallocate s bid =
     (case allocated_blocks s bid of
        None \<Rightarrow> (False, s)
      | Some rec \<Rightarrow>
          let block = BuddyBlock_new (address rec) (actual_size rec);
              internal_frag = actual_size rec - requested_size rec;
              s1 = s\<lparr>free_lists := (free_lists s)
                         [nat (order rec) := block # free_lists s ! nat (order rec)],
                     total_deallocations := total_deallocations s + 1,
                     total_internal_fragmentation :=
                       total_internal_fragmentation s - internal_frag,
                     allocated_blocks := (allocated_blocks s)(bid := None)\<rparr>
          in (True, snd (mergeBlocks s1 (address rec) (order rec))))"

datatype buddy_op = Allocate nat | Deallocate int

fun buddy_step :: "BuddyAllocator \<Rightarrow> buddy_op \<Rightarrow> BuddyAllocator option" where
  "buddy_step s (Allocate n) = map_option snd (BuddyAllocator_allocate s n)"
| "buddy_step s (Deallocate i) = Some (snd (BuddyAllocator_deallocate s i))"

fun buddy_run :: "BuddyAllocator \<Rightarrow> buddy_op list \<Rightarrow> BuddyAllocator option" where
  "buddy_run s [] = Some s"
| "buddy_run s (x # xs) =
     (case buddy_step s x of None \<Rightarrow> None | Some s' \<Rightarrow> buddy_run s' xs)"

text \<open>The address recorded for the id that an \<^verbatim>\<open>allocate\<close> call returned.\<close>

definition buddy_address_of :: "(int \<times> BuddyAllocator) option \<Rightarrow> nat option" where
  "buddy_address_of r =
     (case r of
        None \<Rightarrow> None
      | Some (bid, s) \<Rightarrow> map_option address (allocated_blocks s bid))"

text \<open>The addresses on the free lists, by order, each list from its head.\<close>

definition free_addresses :: "BuddyAllocator \<Rightarrow> nat list list" where
  "free_addresses s = map (map BuddyBlock.address) (free_lists s)"

text \<open>
  Two states that differ at most in the free lists and the statistics; the ids in use are
  below \<^verbatim>\<open>next_block_id\<close>; an id that was issued and is not in use any more.
\<close>

definition same_ids :: "BuddyAllocator \<Rightarrow> BuddyAllocator \<Rightarrow> bool" where
  "same_ids s s' \<longleftrightarrow>
     allocated_blocks s' = allocated_blocks s \<and> next_block_id s' = next_block_id s \<and>
     min_block_size s' = min_block_size s \<and> max_order s' = max_order s \<and>
     total_memory s' = total_memory s"

definition ids_below :: "BuddyAllocator \<Rightarrow> bool" where
  "ids_below s \<longleftrightarrow> (\<forall>k r. allocated_blocks s k = Some r \<longrightarrow> k < next_block_id s)"

definition retired :: "BuddyAllocator \<Rightarrow> int \<Rightarrow> bool" where
  "retired s i \<longleftrightarrow> ids_below s \<and> allocated_blocks s i = None \<and> i < next_block_id s"

section \<open>Virtual memory: \<^verbatim>\<open>virtual_memory_simulator.cpp\<close>\<close>

record PageTableEntry =
  valid :: bool
  frame_number :: int
  dirty :: bool
  last_access_time :: int
  load_time :: int
  access_count :: int

text \<open>The default constructor \<^verbatim>\<open>PageTableEntry()\<close>.\<close>

definition PageTableEntry_new :: PageTableEntry where
  "PageTableEntry_new =
     \<lparr>valid = False, frame_number = -1, dirty = False,
      last_access_time = 0, load_time = 0, access_count = 0\<rparr>"

datatype PageReplacementPolicy = FIFO | LRU

record VirtualMemorySimulator =
  virtual_memory_size :: nat
  physical_memory_size :: nat
  page_size :: nat
  num_virtual_pages :: int
  num_physical_frames :: int
  policy :: PageReplacementPolicy
  page_table :: "PageTableEntry list"
  frame_to_page :: "int list"
  frame_used :: "bool list"
  page_faults :: int
  page_hits :: int
  total_accesses :: int
  disk_reads :: int
  disk_writes :: int
  current_time :: int
  verbose :: bool

definition INT32_MAX :: int where
  "INT32_MAX = 2147483647"

text \<open>The constructor; the frame count is clamped to the page count.\<close>

definition VirtualMemorySimulator_new ::
  "nat \<Rightarrow> nat \<Rightarrow> nat \<Rightarrow> string \<Rightarrow> VirtualMemorySimulator" where
  "VirtualMemorySimulator_new vm_size pm_size pg_size policy_str =
     (let nvp = int (vm_size div pg_size);
          npf0 = int (pm_size div pg_size);
          clamp = (npf0 > nvp);
          npf = (if clamp then nvp else npf0);
          pms = (if clamp then nat npf * pg_size else pm_size)
      in \<lparr>virtual_memory_size = vm_size,
          physical_memory_size = pms,
          page_size = pg_size,
          num_virtual_pages = nvp,
          num_physical_frames = npf,
          policy = (if policy_str = ''lru'' then PageReplacementPolicy.LRU
                    else PageReplacementPolicy.FIFO),
          page_table = replicate (nat nvp) PageTableEntry_new,
          frame_to_page = replicate (nat npf) (-1),
          frame_used = replicate (nat npf) False,
          page_faults = 0, page_hits = 0, total_accesses = 0,
          disk_reads = 0, disk_writes = 0, current_time = 0,
          verbose = False\<rparr>)"

definition setReplacementPolicy ::
  "VirtualMemorySimulator \<Rightarrow> string \<Rightarrow> VirtualMemorySimulator" where
  "setReplacementPolicy s policy_str =
     (if policy_str = ''lru'' then s\<lparr>policy := PageReplacementPolicy.LRU\<rparr>
      else if policy_str = ''fifo'' then s\<lparr>policy := PageReplacementPolicy.FIFO\<rparr>
      else s)"

definition setVerbose :: "VirtualMemorySimulator \<Rightarrow> bool \<Rightarrow> VirtualMemorySimulator" where
  "setVerbose s v = s\<lparr>verbose := v\<rparr>"

text \<open>\<^verbatim>\<open>findFreeFrame\<close>: the lowest frame that is not in use, or \<open>-1\<close>.\<close>

definition findFreeFrame :: "VirtualMemorySimulator \<Rightarrow> int" where
  "findFreeFrame s =
     (case find (\<lambda>i. \<not> frame_used s ! i) [0 ..< nat (num_physical_frames s)] of
        Some i \<Rightarrow> int i
      | None \<Rightarrow> -1)"

text \<open>
  One iteration of the scan in \<^verbatim>\<open>selectVictimPage\<close>; the loop state is the pair of
  the smallest key seen and the victim, \<open>key\<close> is \<^verbatim>\<open>load_time\<close> for FIFO and
  \<^verbatim>\<open>last_access_time\<close> for LRU.
\<close>

definition victim_step ::
  "(PageTableEntry \<Rightarrow> int) \<Rightarrow> VirtualMemorySimulator \<Rightarrow> int \<times> int \<Rightarrow> nat \<Rightarrow> int \<times> int" where
  "victim_step key s acc i =
     (let page_idx = frame_to_page s ! i in
      if page_idx \<noteq> -1 \<and> valid (page_table s ! nat page_idx) then
        (if key (page_table s ! nat page_idx) < fst acc
         then (key (page_table s ! nat page_idx), page_idx)
         else acc)
      else acc)"

definition selectVictimPage :: "VirtualMemorySimulator \<Rightarrow> int" where
  "selectVictimPage s =
     (if policy s = PageReplacementPolicy.FIFO then
        snd (foldl (victim_step load_time s) (INT32_MAX, -1)
               [0 ..< nat (num_physical_frames s)])
      else
        snd (foldl (victim_step last_access_time s) (INT32_MAX, -1)
               [0 ..< nat (num_physical_frames s)]))"

text \<open>
  \<^verbatim>\<open>evictPage\<close> returns the freed frame and the new state.  The first
  \<^verbatim>\<open>disk_writes++\<close> sits inside the \<^verbatim>\<open>if (verbose)\<close> block of the source, the
  second one after it.
\<close>

definition evictPage :: "VirtualMemorySimulator \<Rightarrow> int \<Rightarrow> int \<times> VirtualMemorySimulator" where
  "evictPage s page_number =
     (let pte = page_table s ! nat page_number in
      if \<not> valid pte then (-1, s)
      else
        let frame = frame_number pte;
            s1 = (if verbose s \<and> dirty pte
                  then s\<lparr>disk_writes := disk_writes s + 1\<rparr> else s);
            s2 = (if dirty pte
                  then s1\<lparr>disk_writes := disk_writes s1 + 1\<rparr> else s1);
            s3 = s2\<lparr>page_table := (page_table s2)
                    [nat page_number := pte\<lparr>valid := False, frame_number := -1, dirty := False\<rparr>]\<rparr>;
            s4 = s3\<lparr>frame_to_page := (frame_to_page s3)[nat frame := -1],
                    frame_used := (frame_used s3)[nat frame := False]\<rparr>
        in (frame, s4))"

definition loadPage :: "VirtualMemorySimulator \<Rightarrow> int \<Rightarrow> int \<Rightarrow> VirtualMemorySimulator" where
  "loadPage s page_number frame =
     (let pte = page_table s ! nat page_number;
          s1 = s\<lparr>disk_reads := disk_reads s + 1\<rparr>;
          pte' = pte\<lparr>valid := True, frame_number := frame, dirty := False,
                     load_time := current_time s1, last_access_time := current_time s1,
                     access_count := access_count pte + 1\<rparr>
      in s1\<lparr>page_table := (page_table s1)[nat page_number := pte'],
             frame_to_page := (frame_to_page s1)[nat frame := page_number],
             frame_used := (frame_used s1)[nat frame := True]\<rparr>)"

definition handlePageFault :: "VirtualMemorySimulator \<Rightarrow> int \<Rightarrow> VirtualMemorySimulator" where
  "handlePageFault s page_number =
     (let free_frame = findFreeFrame s in
      if free_frame = -1 then
        (let victim_page = selectVictimPage s in
         if victim_page = -1 then s
         else
           let (frame, s1) = evictPage s victim_page
           in loadPage s1 page_number frame)
      else loadPage s page_number free_frame)"

text \<open>
  \<^verbatim>\<open>translateAddress\<close> returns the physical address and the new state.  The source
  returns \<^verbatim>\<open>-1\<close> (converted to \<^verbatim>\<open>size_t\<close>) for an address out of range; the
  result is kept here as the integer before that conversion.
\<close>

definition translateAddress :: "VirtualMemorySimulator \<Rightarrow> nat \<Rightarrow> int \<times> VirtualMemorySimulator" where
  "translateAddress s virtual_address =
     (let s1 = s\<lparr>total_accesses := total_accesses s + 1,
                  current_time := current_time s + 1\<rparr>
      in if virtual_address \<ge> virtual_memory_size s1 then (-1, s1)
         else
           let page_number = int (virtual_address div page_size s1);
               offset = int (virtual_address mod page_size s1);
               pte = page_table s1 ! nat page_number
           in if valid pte then
                (let s2 = s1\<lparr>page_hits := page_hits s1 + 1,
                              page_table := (page_table s1)
                                [nat page_number :=
                                   pte\<lparr>last_access_time := current_time s1,
                                       access_count := access_count pte + 1\<rparr>]\<rparr>
                 in (frame_number pte * int (page_size s1) + offset, s2))
              else
                (let s2 = s1\<lparr>page_faults := page_faults s1 + 1\<rparr>;
                     s3 = handlePageFault s2 page_number
                 in (frame_number (page_table s3 ! nat page_number) * int (page_size s1) + offset,
                     s3)))"

definition access :: "VirtualMemorySimulator \<Rightarrow> nat \<Rightarrow> VirtualMemorySimulator" where
  "access s virtual_address = snd (translateAddress s virtual_address)"

definition clearStats :: "VirtualMemorySimulator \<Rightarrow> VirtualMemorySimulator" where
  "clearStats s =
     s\<lparr>page_faults := 0, page_hits := 0, total_accesses := 0,
       disk_reads := 0, disk_writes := 0, current_time := 0\<rparr>"

text \<open>
  \<^verbatim>\<open>reset\<close> overwrites the first \<^verbatim>\<open>num_virtual_pages\<close> entries of the page table
  and the first \<^verbatim>\<open>num_physical_frames\<close> entries of the frame tables.
\<close>

definition reset :: "VirtualMemorySimulator \<Rightarrow> VirtualMemorySimulator" where
  "reset s =
     clearStats
       (s\<lparr>page_table :=
             foldl (\<lambda>pt i. pt[i := PageTableEntry_new]) (page_table s)
               [0 ..< nat (num_virtual_pages s)],
           frame_to_page :=
             foldl (\<lambda>ft i. ft[i := -1]) (frame_to_page s)
               [0 ..< nat (num_physical_frames s)],
           frame_used :=
             foldl (\<lambda>fu i. fu[i := False]) (frame_used s)
               [0 ..< nat (num_physical_frames s)]\<rparr>)"

text \<open>The public operations of the simulator that change its state, and a run of them.\<close>

datatype vm_op =
    TranslateAddress nat
  | Access nat
  | SetReplacementPolicy string
  | SetVerbose bool
  | ClearStats
  | Reset

fun vm_step :: "VirtualMemorySimulator \<Rightarrow> vm_op \<Rightarrow> VirtualMemorySimulator" where
  "vm_step s (TranslateAddress va) = snd (translateAddress s va)"
| "vm_step s (Access va) = access s va"
| "vm_step s (SetReplacementPolicy p) = setReplacementPolicy s p"
| "vm_step s (SetVerbose v) = setVerbose s v"
| "vm_step s ClearStats = clearStats s"
| "vm_step s Reset = reset s"

definition vm_run :: "VirtualMemorySimulator \<Rightarrow> vm_op list \<Rightarrow> VirtualMemorySimulator" where
  "vm_run s ops = foldl vm_step s ops"

text \<open>A run of \<^verbatim>\<open>translateAddress\<close> calls alone.\<close>

definition translate_all :: "VirtualMemorySimulator \<Rightarrow> nat list \<Rightarrow> VirtualMemorySimulator" where
  "translate_all s vas = foldl (\<lambda>s va. snd (translateAddress s va)) s vas"



text \<open>
  The invariant of the simulator used below: no page-table entry is dirty, every entry of
  \<^verbatim>\<open>frame_to_page\<close> is \<open>-1\<close> or a page number, and every address below
  \<^verbatim>\<open>virtual_memory_size\<close> lies on a page of the table.
\<close>

definition vm_inv :: "VirtualMemorySimulator \<Rightarrow> bool" where
  "vm_inv s \<longleftrightarrow>
     (\<forall>pte \<in> set (page_table s). \<not> dirty pte) \<and>
     (\<forall>x \<in> set (frame_to_page s). x = -1 \<or> (0 \<le> x \<and> nat x < length (page_table s))) \<and>
     length (frame_to_page s) = nat (num_physical_frames s) \<and>
     0 < page_size s \<and>
     virtual_memory_size s \<le> length (page_table s) * page_size s"

section \<open>Properties of a cache level\<close>

subsection \<open>Updates of a list\<close>

lemma ball_update:
  assumes "\<forall>p \<in> set xs. P p" and "i < length xs \<Longrightarrow> P x"
  shows "\<forall>p \<in> set (xs[i := x]). P p"
proof (cases "i < length xs")
  case True
  with assms show ?thesis
    using set_update_subset_insert [of xs i x] by auto
next
  case False
  then have "xs[i := x] = xs" by (simp add: list_update_beyond)
  with assms(1) show ?thesis by simp
qed

subsection \<open>What \<^verbatim>\<open>read\<close> changes\<close>

lemma map_update_same:
  "g (f (xs ! i)) = g (xs ! i) \<Longrightarrow> map g (xs[i := f (xs ! i)]) = map g xs"
proof (cases "i < length xs")
  case True
  assume "g (f (xs ! i)) = g (xs ! i)"
  with True show ?thesis by (simp add: map_update list_update_same_conv)
next
  case False
  then show ?thesis by (simp add: list_update_beyond)
qed

lemma update_line_identity:
  assumes "\<And>l. line_identity (f l) = line_identity l"
  shows "map (map line_identity) (cache (update_line c s w f)) = map (map line_identity) (cache c)"
proof -
  have "map line_identity ((cache c ! s)[w := f (cache c ! s ! w)]) = map line_identity (cache c ! s)"
    by (rule map_update_same) (rule assms)
  then show ?thesis
    unfolding update_line_def
    by (cases "s < length (cache c)") (simp_all add: map_update list_update_same_conv list_update_beyond)
qed

lemma update_line_fields:
  "update_line c s w f = c\<lparr>cache := cache (update_line c s w f)\<rparr>"
  by (simp add: update_line_def)

lemma update_line_nth:
  "cache (update_line c s w f) ! s' ! w' =
     (if s' = s \<and> w' = w \<and> s < length (cache c) \<and> w < length (cache c ! s)
      then f (cache c ! s ! w) else cache c ! s' ! w')"
  unfolding update_line_def
  by (cases "s < length (cache c)"; cases "w < length (cache c ! s)")
     (auto simp: nth_list_update list_update_beyond)

lemma Cache_read_effect:
  assumes "Cache_read c addr = (hit, c')"
  shows "map (map line_identity) (cache c') = map (map line_identity) (cache c)"
    and "c'\<lparr>cache := cache c, hits := hits c, misses := misses c,
            access_counter := access_counter c\<rparr> = c"
    and "access_counter c' = access_counter c + 1"
    and "hits c' = (if hit then hits c + 1 else hits c)"
    and "misses c' = (if hit then misses c else misses c + 1)"
    and "CacheLine.last_access_time (cache c' ! s ! w) \<noteq> CacheLine.last_access_time (cache c ! s ! w)
         \<longrightarrow> hit \<and> replacement_policy c = ReplacementPolicy.LRU \<and> s = getSetIndex c addr \<and>
           find_way c s (getTag c addr) = Some w \<and>
           CacheLine.last_access_time (cache c' ! s ! w) = access_counter c + 1"
proof -
  let ?c1 = "c\<lparr>access_counter := access_counter c + 1\<rparr>"
  have g: "getSetIndex ?c1 addr = getSetIndex c addr" "getTag ?c1 addr = getTag c addr"
    by (simp_all add: getSetIndex_def getTag_def)
  have fw: "find_way ?c1 s t = find_way c s t" for s t
    by (simp add: find_way_def line_at_def)
  have fw2: "find_way (?c1\<lparr>hits := n\<rparr>) s t = find_way c s t" for s t n
    by (simp add: find_way_def line_at_def)
  show "map (map line_identity) (cache c') = map (map line_identity) (cache c)"
    using assms update_line_identity [of "\<lambda>l. l\<lparr>CacheLine.last_access_time := access_counter c + 1\<rparr>"]
    by (auto simp: Cache_read_def Let_def g fw line_identity_def split: option.splits if_splits)
  show "c'\<lparr>cache := cache c, hits := hits c, misses := misses c,
            access_counter := access_counter c\<rparr> = c"
    using assms
    by (auto simp: Cache_read_def Let_def g fw update_line_def split: option.splits if_splits)
  show "access_counter c' = access_counter c + 1"
    using assms
    by (auto simp: Cache_read_def Let_def g fw update_line_def split: option.splits if_splits)
  show "hits c' = (if hit then hits c + 1 else hits c)"
    using assms
    by (auto simp: Cache_read_def Let_def g fw update_line_def split: option.splits if_splits)
  show "misses c' = (if hit then misses c else misses c + 1)"
    using assms
    by (auto simp: Cache_read_def Let_def g fw update_line_def split: option.splits if_splits)
  show "CacheLine.last_access_time (cache c' ! s ! w) \<noteq> CacheLine.last_access_time (cache c ! s ! w)
         \<longrightarrow> hit \<and> replacement_policy c = ReplacementPolicy.LRU \<and> s = getSetIndex c addr \<and>
           find_way c s (getTag c addr) = Some w \<and>
           CacheLine.last_access_time (cache c' ! s ! w) = access_counter c + 1"
    using assms
    by (auto simp: Cache_read_def Let_def g fw update_line_nth split: option.splits if_splits)
qed

text \<open>
  Claim C8: \<^verbatim>\<open>Cache::read\<close> inserts and evicts nothing.  After \<^verbatim>\<open>read(addr)\<close> the
  fields \<^verbatim>\<open>valid\<close>, \<^verbatim>\<open>tag\<close>, \<^verbatim>\<open>dirty\<close> and \<^verbatim>\<open>insertion_order\<close> of every line
  are what they were; apart from the table, \<^verbatim>\<open>hits\<close>, \<^verbatim>\<open>misses\<close> and
  \<^verbatim>\<open>access_counter\<close> no field of the level changes; the access counter grows by one and
  exactly one of \<^verbatim>\<open>hits\<close> and \<^verbatim>\<open>misses\<close> grows by one, according to the result; and
  a line whose \<^verbatim>\<open>last_access_time\<close> changes is the matched line of a hit in an LRU
  level, stamped with the new access counter.
\<close>

theorem C8_read_frame:
  "map (map line_identity) (cache (snd (Cache_read c addr))) = map (map line_identity) (cache c)
   \<and> (snd (Cache_read c addr))\<lparr>cache := cache c, hits := hits c, misses := misses c,
            access_counter := access_counter c\<rparr> = c
   \<and> access_counter (snd (Cache_read c addr)) = access_counter c + 1
   \<and> hits (snd (Cache_read c addr)) = (if fst (Cache_read c addr) then hits c + 1 else hits c)
   \<and> misses (snd (Cache_read c addr)) = (if fst (Cache_read c addr) then misses c else misses c + 1)
   \<and> (CacheLine.last_access_time (cache (snd (Cache_read c addr)) ! s ! w)
         \<noteq> CacheLine.last_access_time (cache c ! s ! w)
       \<longrightarrow> fst (Cache_read c addr) \<and> replacement_policy c = ReplacementPolicy.LRU \<and>
           s = getSetIndex c addr \<and> find_way c s (getTag c addr) = Some w \<and>
           CacheLine.last_access_time (cache (snd (Cache_read c addr)) ! s ! w)
             = access_counter c + 1)"
proof -
  have r: "Cache_read c addr = (fst (Cache_read c addr), snd (Cache_read c addr))" by simp
  from Cache_read_effect [OF r] show ?thesis by blast
qed

theorem C8_read_frame_witness:
  "fst (Cache_read (cache_run (Cache_new ''L1'' 4 64 TWO_WAY ReplacementPolicy.LRU WRITE_BACK)
                      [Insert 0 False, Write 128]) 0)
   \<and> CacheLine.last_access_time
        (cache (snd (Cache_read (cache_run (Cache_new ''L1'' 4 64 TWO_WAY ReplacementPolicy.LRU WRITE_BACK)
                      [Insert 0 False, Write 128]) 0)) ! 0 ! 0) = 3
   \<and> CacheLine.last_access_time
        (cache (cache_run (Cache_new ''L1'' 4 64 TWO_WAY ReplacementPolicy.LRU WRITE_BACK)
                      [Insert 0 False, Write 128]) ! 0 ! 0) = 1
   \<and> map (map line_identity)
        (cache (snd (Cache_read (cache_run (Cache_new ''L1'' 4 64 TWO_WAY ReplacementPolicy.LRU WRITE_BACK)
                      [Insert 0 False, Write 128]) 0)))
      = [[(True, 0, False, 0), (True, 1, True, 1)], [(False, 0, False, 0), (False, 0, False, 0)]]"
proof -
  let ?c = "cache_run (Cache_new ''L1'' 4 64 TWO_WAY ReplacementPolicy.LRU WRITE_BACK)
              [Insert 0 False, Write 128]"
  have a: "CacheLine.last_access_time (cache (snd (Cache_read ?c 0)) ! 0 ! 0) = 3"
    and b: "CacheLine.last_access_time (cache ?c ! 0 ! 0) = 1"
    and c: "map (map line_identity) (cache ?c)
      = [[(True, 0, False, 0), (True, 1, True, 1)], [(False, 0, False, 0), (False, 0, False, 0)]]"
    by code_simp+
  from C8_read_frame [of ?c 0 0 0] a b c show ?thesis by simp
qed

subsection \<open>Write-through levels\<close>

lemma some_dirty_iff: "some_dirty c \<longleftrightarrow> \<not> all_clean c"
  by (auto simp: some_dirty_def all_clean_def list_ex_iff)

lemma update_line_clean:
  assumes "all_clean c" and "\<And>l. \<not> CacheLine.dirty l \<Longrightarrow> \<not> CacheLine.dirty (f l)"
  shows "all_clean (update_line c s w f)"
proof -
  have "\<forall>l \<in> set ((cache c ! s)[w := f (cache c ! s ! w)]). \<not> CacheLine.dirty l"
    if "s < length (cache c)"
  proof (rule ball_update [where P = "\<lambda>l. \<not> CacheLine.dirty l"])
    from that have "cache c ! s \<in> set (cache c)" by simp
    with assms(1) show a: "\<forall>l \<in> set (cache c ! s). \<not> CacheLine.dirty l" by (simp add: all_clean_def)
    assume "w < length (cache c ! s)"
    then have "cache c ! s ! w \<in> set (cache c ! s)" by simp
    with a have "\<not> CacheLine.dirty (cache c ! s ! w)" by blast
    then show "\<not> CacheLine.dirty (f (cache c ! s ! w))" by (rule assms(2))
  qed
  then have "\<forall>st \<in> set ((cache c)[s := (cache c ! s)[w := f (cache c ! s ! w)]]).
               \<forall>l \<in> set st. \<not> CacheLine.dirty l"
    using assms(1)
    by (intro ball_update [where P = "\<lambda>st. \<forall>l \<in> set st. \<not> CacheLine.dirty l"])
       (simp_all add: all_clean_def)
  then show ?thesis by (simp add: all_clean_def update_line_def)
qed

lemma all_clean_fields:
  "all_clean (c\<lparr>access_counter := a\<rparr>) = all_clean c"
  "all_clean (c\<lparr>hits := a\<rparr>) = all_clean c"
  "all_clean (c\<lparr>misses := a\<rparr>) = all_clean c"
  "all_clean (c\<lparr>writes := a\<rparr>) = all_clean c"
  "all_clean (c\<lparr>write_hits := a\<rparr>) = all_clean c"
  "all_clean (c\<lparr>write_misses := a\<rparr>) = all_clean c"
  "all_clean (c\<lparr>writebacks := a\<rparr>) = all_clean c"
  "all_clean (c\<lparr>next_insertion_order := a\<rparr>) = all_clean c"
  by (simp_all add: all_clean_def)

lemma update_line_other:
  "writebacks (update_line c s w f) = writebacks c"
  "write_policy (update_line c s w f) = write_policy c"
  "replacement_policy (update_line c s w f) = replacement_policy c"
  "access_counter (update_line c s w f) = access_counter c"
  "next_insertion_order (update_line c s w f) = next_insertion_order c"
  by (simp_all add: update_line_def)

lemma read_wt_clean: "wt_clean c \<Longrightarrow> wt_clean (snd (Cache_read c a))"
  by (auto simp: Cache_read_def Let_def wt_clean_def all_clean_fields update_line_other
           intro!: update_line_clean split: option.splits)

lemma write_wt_clean: "wt_clean c \<Longrightarrow> wt_clean (snd (Cache_write c a))"
  by (auto simp: Cache_write_def Let_def wt_clean_def all_clean_fields update_line_other
           count_writeback_def
           intro!: update_line_clean split: option.splits)

lemma insert_wt_clean: "wt_clean c \<Longrightarrow> wt_clean (Cache_insert c a d)"
  by (auto simp: Cache_insert_def Let_def wt_clean_def all_clean_fields update_line_other
           count_writeback_def
           intro!: update_line_clean split: option.splits)

lemma evict_wt_clean: "wt_clean c \<Longrightarrow> wt_clean (snd (snd (Cache_evict c a)))"
  by (auto simp: Cache_evict_def Let_def wt_clean_def all_clean_fields update_line_other
           intro!: update_line_clean split: option.splits)

lemma clear_fold_clean:
  "all_clean c \<Longrightarrow> write_policy c = p \<Longrightarrow>
   all_clean (foldl (\<lambda>cc (s, w). update_line cc s w (\<lambda>l. l\<lparr>CacheLine.valid := False, CacheLine.dirty := False\<rparr>)) c ps)
   \<and> write_policy (foldl (\<lambda>cc (s, w). update_line cc s w (\<lambda>l. l\<lparr>CacheLine.valid := False, CacheLine.dirty := False\<rparr>)) c ps) = p"
proof (induction ps arbitrary: c)
  case Nil
  then show ?case by simp
next
  case (Cons x ps)
  obtain s w where x: "x = (s, w)" by (cases x)
  have "all_clean (update_line c s w (\<lambda>l. l\<lparr>CacheLine.valid := False, CacheLine.dirty := False\<rparr>))"
    using Cons.prems(1) by (rule update_line_clean) simp
  from Cons.IH [OF this] Cons.prems(2) show ?case by (simp add: x update_line_other)
qed

lemma clear_wt_clean: "wt_clean c \<Longrightarrow> wt_clean (Cache_clear c)"
  using clear_fold_clean [of c WRITE_THROUGH]
  by (simp add: Cache_clear_def Let_def wt_clean_def all_clean_fields)

lemma cache_step_wt_clean: "wt_clean c \<Longrightarrow> wt_clean (cache_step c x)"
  by (cases x) (simp_all add: read_wt_clean write_wt_clean insert_wt_clean evict_wt_clean clear_wt_clean)

lemma cache_run_wt_clean: "wt_clean c \<Longrightarrow> wt_clean (cache_run c ops)"
  unfolding cache_run_def by (induction ops arbitrary: c) (simp_all add: cache_step_wt_clean)

lemma Cache_new_wt_clean: "wt_clean (Cache_new nm n b a r WRITE_THROUGH)"
  by (cases a) (simp_all add: Cache_new_def wt_clean_def all_clean_def CacheLine_new_def)

text \<open>
  Claim C6: in a level built with the policy \<^verbatim>\<open>WRITE_THROUGH\<close>, after every sequence
  of \<^verbatim>\<open>read\<close>, \<^verbatim>\<open>write\<close>, \<^verbatim>\<open>insert\<close>, \<^verbatim>\<open>evict\<close> and \<^verbatim>\<open>clear\<close> calls no line
  is dirty and \<^verbatim>\<open>writebacks\<close> is 0.
\<close>

theorem C6_write_through_clean:
  "\<not> some_dirty (cache_run (Cache_new nm n b a r WRITE_THROUGH) ops) \<and>
   writebacks (cache_run (Cache_new nm n b a r WRITE_THROUGH) ops) = 0"
  using cache_run_wt_clean [OF Cache_new_wt_clean, of nm n b a r ops]
  by (simp add: wt_clean_def some_dirty_iff)

section \<open>Properties of the write path\<close>

subsection \<open>A write to one level\<close>

lemma find_way_counters:
  "find_way (c\<lparr>access_counter := a, writes := b\<rparr>) s t = find_way c s t"
  "find_way (c\<lparr>access_counter := a\<rparr>) s t = find_way c s t"
  by (simp_all add: find_way_def line_at_def)

lemma index_counters:
  "getSetIndex (c\<lparr>access_counter := a, writes := b\<rparr>) addr = getSetIndex c addr"
  "getTag (c\<lparr>access_counter := a, writes := b\<rparr>) addr = getTag c addr"
  by (simp_all add: getSetIndex_def getTag_def)

lemma Cache_write_hit: "fst (Cache_write c addr) = present c addr"
  by (simp add: Cache_write_def Let_def present_def find_way_counters index_counters
           split: option.splits)

lemma update_line_policy:
  "write_policy (update_line c s w f) = write_policy c"
  by (simp add: update_line_def)

lemma Cache_write_policy: "write_policy (snd (Cache_write c addr)) = write_policy c"
  by (simp add: Cache_write_def Let_def update_line_policy count_writeback_def
           split: option.splits)

lemma find_way_Some:
  assumes "find_way c s t = Some w"
  shows "w < nat (ways c)" "CacheLine.valid (line_at c s w)" "tag (line_at c s w) = t"
  using assms by (auto simp: find_way_def find_Some_iff)

lemma line_at_update_line:
  "line_at (update_line c s w f) s' w' =
     (if s' = s \<and> w' = w \<and> s < length (cache c) \<and> w < length (cache c ! s)
      then f (line_at c s w) else line_at c s' w')"
  unfolding update_line_def line_at_def
  by (cases "s < length (cache c)"; cases "w < length (cache c ! s)")
     (auto simp: nth_list_update list_update_beyond)

lemma update_line_shape:
  "ways (update_line c s w f) = ways c"
  "num_sets (update_line c s w f) = num_sets c"
  "block_size (update_line c s w f) = block_size c"
  "length (cache (update_line c s w f)) = length (cache c)"
  "length (cache (update_line c s w f) ! s') = length (cache c ! s')"
  "getSetIndex (update_line c s w f) addr = getSetIndex c addr"
  "getTag (update_line c s w f) addr = getTag c addr"
  unfolding update_line_def getSetIndex_def getTag_def
  by (simp_all, cases "s < length (cache c)", simp_all add: nth_list_update list_update_beyond)

lemma find_way_update_line:
  assumes "\<And>l. CacheLine.valid (f l) = CacheLine.valid l \<and> tag (f l) = tag l"
  shows "find_way (update_line c s w f) s' t = find_way c s' t"
  unfolding find_way_def update_line_shape
  by (rule find_cong) (simp_all add: line_at_update_line assms)

lemma wf_index:
  assumes "cache_wf c"
  shows "getSetIndex c addr < length (cache c)"
    and "w < nat (ways c) \<Longrightarrow> w < length (cache c ! getSetIndex c addr)"
proof -
  from assms have n: "0 < nat (num_sets c)" "length (cache c) = nat (num_sets c)"
    by (simp_all add: cache_wf_def)
  then show s: "getSetIndex c addr < length (cache c)" by (simp add: getSetIndex_def)
  then have "cache c ! getSetIndex c addr \<in> set (cache c)" by simp
  with assms have "length (cache c ! getSetIndex c addr) = nat (ways c)"
    by (simp add: cache_wf_def list_all_iff)
  then show "w < nat (ways c) \<Longrightarrow> w < length (cache c ! getSetIndex c addr)" by simp
qed

lemma oldest_fold_range:
  "fst acc < n \<Longrightarrow> set ws \<subseteq> {..<n} \<Longrightarrow> fst (foldl (oldest_step key c s) acc ws) < n"
proof (induction ws arbitrary: acc)
  case Nil
  then show ?case by simp
next
  case (Cons w ws)
  have "fst (oldest_step key c s acc w) < n"
    using Cons.prems by (simp add: oldest_step_def)
  from Cons.IH [OF this] Cons.prems(2) show ?case by simp
qed

lemma findVictimInSet_range:
  assumes "0 < ways c"
  shows "findVictimInSet c s < nat (ways c)"
proof (cases "find (\<lambda>w. \<not> CacheLine.valid (line_at c s w)) [0 ..< nat (ways c)]")
  case None
  have "fst (foldl (oldest_step key c s) (0, k) [1 ..< nat (ways c)]) < nat (ways c)" for key k
    using assms by (intro oldest_fold_range) auto
  with None show ?thesis
    by (simp add: findVictimInSet_def findFIFOVictimInSet_def findLRUVictimInSet_def)
next
  case (Some w)
  then have "w \<in> set [0 ..< nat (ways c)]" by (auto simp: find_Some_iff)
  with Some show ?thesis by (simp add: findVictimInSet_def)
qed

lemma find_way_None:
  "find_way c s t = None \<Longrightarrow> w < nat (ways c) \<Longrightarrow>
   \<not> (CacheLine.valid (line_at c s w) \<and> tag (line_at c s w) = t)"
  by (auto simp: find_way_def find_None_iff)

lemma find_way_unique:
  assumes "v < nat (ways c)" "CacheLine.valid (line_at c s v)" "tag (line_at c s v) = t"
    and "\<And>w. w < v \<Longrightarrow> \<not> (CacheLine.valid (line_at c s w) \<and> tag (line_at c s w) = t)"
  shows "find_way c s t = Some v"
  unfolding find_way_def find_Some_iff
  using assms by (intro exI [of _ v]) auto

lemma present_dirty_present: "present_dirty c addr \<Longrightarrow> present c addr"
  by (simp add: present_dirty_def present_def split: option.splits)

lemma filled_present:
  assumes wf: "cache_wf c" and miss: "find_way c (getSetIndex c addr) (getTag c addr) = None"
    and v: "v < nat (ways c)"
    and shape: "ways c' = ways c" "getSetIndex c' addr = getSetIndex c addr"
       "getTag c' addr = getTag c addr"
    and lines: "\<And>w. w < nat (ways c) \<Longrightarrow> line_at c' (getSetIndex c addr) w =
        (if w = v then l else line_at c (getSetIndex c addr) w)"
    and l: "CacheLine.valid l" "tag l = getTag c addr"
  shows "present c' addr" and "present_dirty c' addr \<longleftrightarrow> CacheLine.dirty l"
proof -
  have f: "find_way c' (getSetIndex c addr) (getTag c addr) = Some v"
  proof (rule find_way_unique)
    show "v < nat (ways c')" using v shape by simp
    show "CacheLine.valid (line_at c' (getSetIndex c addr) v)"
      "tag (line_at c' (getSetIndex c addr) v) = getTag c addr"
      using lines [OF v] l by simp_all
    fix w assume "w < v"
    with v have w: "w < nat (ways c)" "w \<noteq> v" by simp_all
    from find_way_None [OF miss w(1)] lines [OF w(1)] w(2)
    show "\<not> (CacheLine.valid (line_at c' (getSetIndex c addr) w) \<and>
             tag (line_at c' (getSetIndex c addr) w) = getTag c addr)" by simp
  qed
  then show "present c' addr" by (simp add: present_def shape)
  have "CacheLine.dirty (line_at c' (getSetIndex c addr) v) = CacheLine.dirty l"
    using lines [OF v] by simp
  with f show "present_dirty c' addr \<longleftrightarrow> CacheLine.dirty l"
    by (simp add: present_dirty_def shape)
qed

text \<open>
  After \<^verbatim>\<open>write\<close> the level holds the block; its line is dirty when the level is
  write-back, and as dirty as it was when the level is write-through.
\<close>

lemma Cache_write_hit_line:
  assumes wf: "cache_wf c" and p: "present c addr"
  shows "present (snd (Cache_write c addr)) addr"
    and "present_dirty (snd (Cache_write c addr)) addr \<longleftrightarrow>
           write_policy c = WRITE_BACK \<or> present_dirty c addr"
proof -
  let ?c1 = "c\<lparr>access_counter := access_counter c + 1, writes := writes c + 1\<rparr>"
  let ?s = "getSetIndex c addr"
  let ?t = "getTag c addr"
  from p obtain w where w: "find_way c ?s ?t = Some w" by (auto simp: present_def)
  note fw = find_way_Some [OF w]
  have r: "?s < length (cache c)" "w < length (cache c ! ?s)"
    using wf_index [OF wf] fw(1) by simp_all
  let ?c2 = "?c1\<lparr>write_hits := write_hits ?c1 + 1, hits := hits ?c1 + 1\<rparr>"
  define c3 where "c3 = (if replacement_policy ?c2 = ReplacementPolicy.LRU
             then update_line ?c2 ?s w (\<lambda>l. l\<lparr>CacheLine.last_access_time := access_counter ?c2\<rparr>)
             else ?c2)"
  define c4 where "c4 = (if write_policy c = WRITE_BACK
             then update_line c3 ?s w (\<lambda>l. l\<lparr>CacheLine.dirty := True\<rparr>) else c3)"
  have p3: "write_policy c3 = write_policy c"
    by (simp add: c3_def update_line_policy)
  have eq: "snd (Cache_write c addr) = c4"
    using w unfolding c4_def p3 [symmetric] unfolding c3_def
    by (simp add: Cache_write_def Let_def find_way_counters index_counters)
  have c2: "find_way ?c2 ?s ?t = find_way c ?s ?t" "length (cache ?c2) = length (cache c)"
    "length (cache ?c2 ! ?s) = length (cache c ! ?s)"
    "getSetIndex ?c2 addr = ?s" "getTag ?c2 addr = ?t" "line_at ?c2 ?s w = line_at c ?s w"
    by (simp_all add: find_way_def line_at_def getSetIndex_def getTag_def)
  have c3: "find_way c3 ?s ?t = find_way c ?s ?t" "length (cache c3) = length (cache c)"
    "length (cache c3 ! ?s) = length (cache c ! ?s)"
    "getSetIndex c3 addr = ?s" "getTag c3 addr = ?t"
    unfolding c3_def using c2
    by (simp_all add: find_way_update_line update_line_shape del: One_nat_def)
  have d3: "CacheLine.dirty (line_at c3 ?s w) = CacheLine.dirty (line_at c ?s w)"
    unfolding c3_def using c2(6) by (simp add: line_at_update_line del: One_nat_def)
  have idx: "getSetIndex c4 addr = ?s" "getTag c4 addr = ?t"
    by (simp_all add: c4_def update_line_shape c3)
  have f4: "find_way c4 ?s ?t = Some w" by (simp add: c4_def find_way_update_line c3 w)
  have d4: "CacheLine.dirty (line_at c4 ?s w) \<longleftrightarrow>
              write_policy c = WRITE_BACK \<or> CacheLine.dirty (line_at c ?s w)"
    using r by (simp add: c4_def line_at_update_line c3 d3)
  from f4 show "present (snd (Cache_write c addr)) addr"
    unfolding eq present_def idx by simp
  from f4 d4 w show "present_dirty (snd (Cache_write c addr)) addr \<longleftrightarrow>
           write_policy c = WRITE_BACK \<or> present_dirty c addr"
    unfolding eq present_dirty_def idx by simp
qed

lemma Cache_write_miss_line:
  assumes wf: "cache_wf c" and p: "\<not> present c addr"
  shows "present (snd (Cache_write c addr)) addr"
    and "present_dirty (snd (Cache_write c addr)) addr \<longleftrightarrow> write_policy c = WRITE_BACK"
proof -
  let ?s = "getSetIndex c addr"
  let ?t = "getTag c addr"
  from p have miss: "find_way c ?s ?t = None" by (simp add: present_def)
  let ?c1 = "c\<lparr>access_counter := access_counter c + 1, writes := writes c + 1\<rparr>"
  let ?c2 = "?c1\<lparr>write_misses := write_misses ?c1 + 1, misses := misses ?c1 + 1\<rparr>"
  define v where "v = findVictimInSet ?c2 ?s"
  have v: "v < nat (ways c)"
    using findVictimInSet_range [of ?c2 ?s] wf by (simp add: v_def cache_wf_def)
  have r: "?s < length (cache c)" "v < length (cache c ! ?s)"
    using wf_index [OF wf] v by simp_all
  define c3 where "c3 = count_writeback ?c2 ?s v"
  have c3: "cache c3 = cache c" "ways c3 = ways c" "write_policy c3 = write_policy c"
    "getSetIndex c3 addr = ?s" "getTag c3 addr = ?t"
    by (simp_all add: c3_def count_writeback_def getSetIndex_def getTag_def)
  define c4 where "c4 = update_line c3 ?s v
                         (\<lambda>l. l\<lparr>CacheLine.valid := True, tag := ?t,
                                 insertion_order := next_insertion_order c3,
                                 CacheLine.last_access_time := access_counter c3\<rparr>)"
  define c5 where "c5 = c4\<lparr>next_insertion_order := next_insertion_order c4 + 1\<rparr>"
  define c6 where "c6 = update_line c5 ?s v
                          (\<lambda>l. l\<lparr>CacheLine.dirty := (write_policy c = WRITE_BACK)\<rparr>)"
  have eq: "snd (Cache_write c addr) = c6"
    using miss unfolding c6_def c5_def c4_def c3_def v_def
    by (cases "write_policy c")
       (simp_all add: Cache_write_def Let_def find_way_counters index_counters update_line_policy
          count_writeback_def)
  have l4: "line_at c4 ?s w = (if w = v then (line_at c ?s v)\<lparr>CacheLine.valid := True, tag := ?t,
                                 insertion_order := next_insertion_order c3,
                                 CacheLine.last_access_time := access_counter c3\<rparr>
            else line_at c ?s w)" for w
    using r by (simp add: c4_def line_at_update_line c3) (simp add: line_at_def c3)
  have s5: "length (cache c5) = length (cache c)" "length (cache c5 ! ?s) = length (cache c ! ?s)"
    by (simp_all add: c5_def c4_def update_line_shape c3)
  have l5: "line_at c5 ?s w = line_at c4 ?s w" for w
    by (simp add: c5_def line_at_def)
  define l where "l = (line_at c ?s v)\<lparr>CacheLine.valid := True, tag := ?t,
                                 insertion_order := next_insertion_order c3,
                                 CacheLine.last_access_time := access_counter c3,
                                 CacheLine.dirty := (write_policy c = WRITE_BACK)\<rparr>"
  have l6: "line_at c6 ?s w = (if w = v then l else line_at c ?s w)" for w
    using r by (simp add: c6_def line_at_update_line s5 l5 l4 l_def)
  have sh: "ways c6 = ways c" "getSetIndex c6 addr = ?s" "getTag c6 addr = ?t"
    by (simp_all add: c6_def c5_def c4_def update_line_shape c3)
       (simp_all add: getSetIndex_def getTag_def update_line_shape c3_def count_writeback_def)
  have l: "CacheLine.valid l" "tag l = ?t" "CacheLine.dirty l = (write_policy c = WRITE_BACK)"
    by (simp_all add: l_def)
  from filled_present(1) [OF wf miss v sh l6 l(1,2)]
  show "present (snd (Cache_write c addr)) addr" unfolding eq by simp
  from filled_present(2) [OF wf miss v sh l6 l(1,2)] l(3)
  show "present_dirty (snd (Cache_write c addr)) addr \<longleftrightarrow> write_policy c = WRITE_BACK"
    unfolding eq by simp
qed

lemma Cache_write_line:
  assumes "cache_wf c"
  shows "present (snd (Cache_write c addr)) addr"
    and "present_dirty (snd (Cache_write c addr)) addr \<longleftrightarrow>
           write_policy c = WRITE_BACK \<or> present_dirty c addr"
proof -
  show "present (snd (Cache_write c addr)) addr"
    using assms by (cases "present c addr") (simp_all add: Cache_write_hit_line Cache_write_miss_line)
  show "present_dirty (snd (Cache_write c addr)) addr \<longleftrightarrow>
           write_policy c = WRITE_BACK \<or> present_dirty c addr"
  proof (cases "present c addr")
    case True
    with assms show ?thesis by (rule Cache_write_hit_line)
  next
    case False
    then have "\<not> present_dirty c addr" using present_dirty_present by blast
    with Cache_write_miss_line(2) [OF assms False] show ?thesis by simp
  qed
qed

lemma present_update_line:
  assumes "\<And>l. CacheLine.valid (f l) = CacheLine.valid l \<and> tag (f l) = tag l"
  shows "present (update_line c s w f) addr = present c addr"
  using assms by (simp add: present_def update_line_shape find_way_update_line)

lemma present_dirty_update_line_eq:
  assumes "\<And>l. CacheLine.valid (f l) = CacheLine.valid l \<and> tag (f l) = tag l \<and>
                CacheLine.dirty (f l) = CacheLine.dirty l"
  shows "present_dirty (update_line c s w f) addr = present_dirty c addr"
  using assms
  by (simp add: present_dirty_def update_line_shape find_way_update_line line_at_update_line
           split: option.splits)

lemma present_counter:
  "present (c\<lparr>access_counter := a\<rparr>) addr = present c addr"
  by (simp add: present_def find_way_def line_at_def getSetIndex_def getTag_def)

lemma present_dirty_counter:
  "present_dirty (c\<lparr>access_counter := a\<rparr>) addr = present_dirty c addr"
  by (simp add: present_dirty_def find_way_def line_at_def getSetIndex_def getTag_def
           split: option.splits)

text \<open>
  \<^verbatim>\<open>insert\<close> of a block that the level holds: the line stays, and it becomes dirty only
  when the flag is set and the level is write-back.
\<close>

lemma Cache_insert_line:
  assumes wf: "cache_wf c" and p: "present c addr"
  shows "present (Cache_insert c addr d) addr"
    and "present_dirty (Cache_insert c addr d) addr \<longleftrightarrow>
           present_dirty c addr \<or> (d \<and> write_policy c = WRITE_BACK)"
proof -
  let ?s = "getSetIndex c addr"
  let ?t = "getTag c addr"
  from p obtain v where v: "find_way c ?s ?t = Some v" by (auto simp: present_def)
  note fw = find_way_Some [OF v]
  have r: "?s < length (cache c)" "v < length (cache c ! ?s)"
    using wf_index [OF wf] fw(1) by simp_all
  define c1 where "c1 = (if replacement_policy c = ReplacementPolicy.LRU
                        then update_line (c\<lparr>access_counter := access_counter c + 1\<rparr>) ?s v
                               (\<lambda>l. l\<lparr>CacheLine.last_access_time := access_counter c + 1\<rparr>)
                        else c)"
  have c1: "present c1 addr = present c addr" "present_dirty c1 addr = present_dirty c addr"
    "find_way c1 ?s ?t = Some v" "getSetIndex c1 addr = ?s" "getTag c1 addr = ?t"
    "length (cache c1) = length (cache c)" "length (cache c1 ! ?s) = length (cache c ! ?s)"
    unfolding c1_def using v
    by (simp_all add: present_update_line present_dirty_update_line_eq present_counter
          present_dirty_counter find_way_update_line update_line_shape find_way_counters)
       (simp_all add: getSetIndex_def getTag_def)
  define c2 where "c2 = update_line c1 ?s v (\<lambda>l. l\<lparr>CacheLine.dirty := True\<rparr>)"
  have eq: "Cache_insert c addr d = (if d \<and> write_policy c = WRITE_BACK then c2 else c1)"
    using v unfolding c2_def c1_def by (simp add: Cache_insert_def Let_def)
  have f2: "find_way c2 ?s ?t = Some v" "getSetIndex c2 addr = ?s" "getTag c2 addr = ?t"
    by (simp_all add: c2_def find_way_update_line update_line_shape c1)
  have d2: "CacheLine.dirty (line_at c2 ?s v)"
    using r by (simp add: c2_def line_at_update_line c1)
  have c2: "present c2 addr" "present_dirty c2 addr"
    using f2 d2 by (simp_all add: present_def present_dirty_def)
  from p c1(1) c2(1) show "present (Cache_insert c addr d) addr" by (simp add: eq)
  from c1(2) c2(2) show "present_dirty (Cache_insert c addr d) addr \<longleftrightarrow>
           present_dirty c addr \<or> (d \<and> write_policy c = WRITE_BACK)"
    by (auto simp: eq)
qed

subsection \<open>A write through the hierarchy\<close>

lemmas write_defs = CacheHierarchy_write_def write_l2_def write_l3_def write_memory_def
  Let_def split_def getWritePolicy_def Cache_write_hit Cache_write_policy

lemma write_result:
  "fst (CacheHierarchy_write h addr) \<longleftrightarrow>
     \<not> present (l1 h) addr \<and> \<not> present_opt (l2 h) addr \<and> \<not> present_opt (l3 h) addr"
  by (cases "l2 h"; cases "l3 h") (simp_all add: write_defs present_opt_def)

lemma write_memory_writes:
  "memory_writes (snd (CacheHierarchy_write h addr)) =
     memory_writes h + (if write_policy (l1 h) = WRITE_THROUGH then 1 else 0)"
  by (cases "l2 h"; cases "l3 h") (simp_all add: write_defs)

lemma write_memory_accesses:
  "memory_accesses (snd (CacheHierarchy_write h addr)) =
     memory_accesses h + (if fst (CacheHierarchy_write h addr) then 1 else 0)"
  by (cases "l2 h"; cases "l3 h") (simp_all add: write_defs)

lemma write_total_miss_penalty:
  "fst (CacheHierarchy_write h addr) \<Longrightarrow>
   total_penalty_cycles (snd (CacheHierarchy_write h addr)) =
     total_penalty_cycles h + (l1_penalty h + (if has_l2 h then l2_penalty h else 0)
       + (if has_l3 h then l3_penalty h else 0) + memory_penalty h)"
  by (cases "l2 h"; cases "l3 h") (simp_all add: write_defs has_l2_def has_l3_def split: if_splits)

subsection \<open>Well-formed levels\<close>

lemma update_line_wf: "cache_wf c \<Longrightarrow> cache_wf (update_line c s w f)"
  by (simp add: cache_wf_def update_line_shape list_all_length)

lemma cache_wf_fields:
  "cache_wf (c\<lparr>access_counter := a\<rparr>) = cache_wf c"
  "cache_wf (c\<lparr>hits := a\<rparr>) = cache_wf c"
  "cache_wf (c\<lparr>misses := a\<rparr>) = cache_wf c"
  "cache_wf (c\<lparr>writes := a\<rparr>) = cache_wf c"
  "cache_wf (c\<lparr>write_hits := a\<rparr>) = cache_wf c"
  "cache_wf (c\<lparr>write_misses := a\<rparr>) = cache_wf c"
  "cache_wf (c\<lparr>writebacks := a\<rparr>) = cache_wf c"
  "cache_wf (c\<lparr>next_insertion_order := a\<rparr>) = cache_wf c"
  by (simp_all add: cache_wf_def)

lemma count_writeback_wf: "cache_wf (count_writeback c s w) = cache_wf c"
  by (simp add: count_writeback_def cache_wf_fields)

lemma Cache_read_wf: "cache_wf c \<Longrightarrow> cache_wf (snd (Cache_read c a))"
  by (simp add: Cache_read_def Let_def cache_wf_fields update_line_wf split: option.splits)

lemma Cache_write_wf: "cache_wf c \<Longrightarrow> cache_wf (snd (Cache_write c a))"
  by (simp add: Cache_write_def Let_def cache_wf_fields update_line_wf count_writeback_wf
           split: option.splits)

lemma Cache_insert_wf: "cache_wf c \<Longrightarrow> cache_wf (Cache_insert c a d)"
  by (simp add: Cache_insert_def Let_def cache_wf_fields update_line_wf count_writeback_wf
           split: option.splits)

lemma Cache_evict_wf: "cache_wf c \<Longrightarrow> cache_wf (snd (snd (Cache_evict c a)))"
  by (simp add: Cache_evict_def Let_def cache_wf_fields update_line_wf split: option.splits)

lemma clear_fold_wf:
  "cache_wf c \<Longrightarrow>
   cache_wf (foldl (\<lambda>cc (s, w). update_line cc s w f) c ps)"
  by (induction ps arbitrary: c) (simp_all add: update_line_wf split_def)

lemma Cache_clear_wf: "cache_wf c \<Longrightarrow> cache_wf (Cache_clear c)"
  by (simp add: Cache_clear_def Let_def cache_wf_fields clear_fold_wf)

lemma cache_step_wf: "cache_wf c \<Longrightarrow> cache_wf (cache_step c x)"
  by (cases x)
     (simp_all add: Cache_read_wf Cache_write_wf Cache_insert_wf Cache_evict_wf Cache_clear_wf)

text \<open>
  The constructor builds a well-formed level from a positive block size and a line count
  that the associativity divides into at least one set.
\<close>

lemma Cache_new_wf:
  assumes "0 < blk" and "0 < n"
    and "assoc = TWO_WAY \<longrightarrow> 2 \<le> n" and "assoc = FOUR_WAY \<longrightarrow> 4 \<le> n"
  shows "cache_wf (Cache_new nm n blk assoc repl wr)"
  using assms by (cases assoc) (simp_all add: Cache_new_def cache_wf_def list_all_length)

lemma cache_wf_opt_map:
  "cache_wf_opt lv \<Longrightarrow> (\<And>c. cache_wf c \<Longrightarrow> cache_wf (f c)) \<Longrightarrow> cache_wf_opt (map_option f lv)"
  by (cases lv) (simp_all add: cache_wf_opt_def)

lemma write_memory_wf: "hier_wf h \<Longrightarrow> hier_wf (snd (write_memory h p a))"
  by (simp add: write_memory_def Let_def hier_wf_def Cache_insert_wf cache_wf_opt_map)

lemma write_l3_wf: "hier_wf h \<Longrightarrow> hier_wf (snd (write_l3 h p a))"
proof (cases "l3 h")
  case None
  assume "hier_wf h"
  with None show ?thesis by (simp add: write_l3_def write_memory_wf)
next
  case (Some c3)
  assume w: "hier_wf h"
  then have "cache_wf (snd (Cache_write c3 a))" using Some by (simp add: hier_wf_def cache_wf_opt_def Cache_write_wf)
  with w have h1: "hier_wf (h\<lparr>l3 := Some (snd (Cache_write c3 a))\<rparr>)"
    by (simp add: hier_wf_def cache_wf_opt_def)
  show ?thesis
    using h1 write_memory_wf [OF h1]
    by (simp add: write_l3_def Some Let_def split_def) (simp add: hier_wf_def Cache_insert_wf cache_wf_opt_map)
qed

lemma write_l2_wf: "hier_wf h \<Longrightarrow> hier_wf (snd (write_l2 h p a))"
proof (cases "l2 h")
  case None
  assume "hier_wf h"
  with None show ?thesis by (simp add: write_l2_def write_l3_wf)
next
  case (Some c2)
  assume w: "hier_wf h"
  then have "cache_wf (snd (Cache_write c2 a))" using Some by (simp add: hier_wf_def cache_wf_opt_def Cache_write_wf)
  with w have h1: "hier_wf (h\<lparr>l2 := Some (snd (Cache_write c2 a))\<rparr>)"
    by (simp add: hier_wf_def cache_wf_opt_def)
  show ?thesis
    using h1 write_l3_wf [OF h1]
    by (simp add: write_l2_def Some Let_def split_def) (simp add: hier_wf_def Cache_insert_wf)
qed

lemma CacheHierarchy_write_wf: "hier_wf h \<Longrightarrow> hier_wf (snd (CacheHierarchy_write h a))"
proof -
  assume w: "hier_wf h"
  let ?h1 = "h\<lparr>CacheHierarchy.total_accesses := CacheHierarchy.total_accesses h + 1,
               total_writes := total_writes h + 1, l1 := snd (Cache_write (l1 h) a)\<rparr>"
  have h1: "hier_wf ?h1" using w by (simp add: hier_wf_def Cache_write_wf)
  show ?thesis
    using h1 write_l2_wf [OF h1]
    by (simp add: CacheHierarchy_write_def Let_def split_def) (simp add: hier_wf_def)
qed

lemma read_memory_wf: "hier_wf h \<Longrightarrow> hier_wf (snd (read_memory h p a))"
  by (simp add: read_memory_def Let_def hier_wf_def Cache_insert_wf cache_wf_opt_map)

lemma read_l3_wf: "hier_wf h \<Longrightarrow> hier_wf (snd (read_l3 h p a))"
proof (cases "l3 h")
  case None
  assume "hier_wf h"
  with None show ?thesis by (simp add: read_l3_def read_memory_wf)
next
  case (Some c3)
  assume w: "hier_wf h"
  then have "cache_wf (snd (Cache_read c3 a))"
    using Some by (simp add: hier_wf_def cache_wf_opt_def Cache_read_wf)
  with w have h1: "hier_wf (h\<lparr>l3 := Some (snd (Cache_read c3 a))\<rparr>)"
    by (simp add: hier_wf_def cache_wf_opt_def)
  show ?thesis
    using h1 read_memory_wf [OF h1]
    by (simp add: read_l3_def Some Let_def split_def)
       (simp add: hier_wf_def Cache_insert_wf cache_wf_opt_map)
qed

lemma read_l2_wf: "hier_wf h \<Longrightarrow> hier_wf (snd (read_l2 h p a))"
proof (cases "l2 h")
  case None
  assume "hier_wf h"
  with None show ?thesis by (simp add: read_l2_def read_l3_wf)
next
  case (Some c2)
  assume w: "hier_wf h"
  then have "cache_wf (snd (Cache_read c2 a))"
    using Some by (simp add: hier_wf_def cache_wf_opt_def Cache_read_wf)
  with w have h1: "hier_wf (h\<lparr>l2 := Some (snd (Cache_read c2 a))\<rparr>)"
    by (simp add: hier_wf_def cache_wf_opt_def)
  show ?thesis
    using h1 read_l3_wf [OF h1]
    by (simp add: read_l2_def Some Let_def split_def) (simp add: hier_wf_def Cache_insert_wf)
qed

lemma CacheHierarchy_read_wf: "hier_wf h \<Longrightarrow> hier_wf (snd (CacheHierarchy_read h a))"
proof -
  assume w: "hier_wf h"
  let ?h1 = "h\<lparr>CacheHierarchy.total_accesses := CacheHierarchy.total_accesses h + 1,
               total_reads := total_reads h + 1, l1 := snd (Cache_read (l1 h) a)\<rparr>"
  have h1: "hier_wf ?h1" using w by (simp add: hier_wf_def Cache_read_wf)
  show ?thesis
    using h1 read_l2_wf [OF h1]
    by (simp add: CacheHierarchy_read_def Let_def split_def) (simp add: hier_wf_def)
qed

lemma hier_run_wf: "hier_wf h \<Longrightarrow> hier_wf (hier_run h ops)"
  unfolding hier_run_def
proof (induction ops arbitrary: h)
  case Nil
  then show ?case by simp
next
  case (Cons x ops)
  have "hier_wf (snd (hier_step h x))"
    using Cons.prems by (cases x) (simp_all add: CacheHierarchy_read_wf CacheHierarchy_write_wf)
  from Cons.IH [OF this] show ?case by simp
qed

subsection \<open>Where the write is held\<close>

text \<open>A level that was written and then refilled by \<^verbatim>\<open>insert\<close>.\<close>

lemma written_line:
  assumes "cache_wf c"
  shows "present (Cache_insert (snd (Cache_write c addr)) addr d) addr"
    and "present_dirty (Cache_insert (snd (Cache_write c addr)) addr d) addr \<longleftrightarrow>
           write_policy c = WRITE_BACK \<or> present_dirty c addr"
proof -
  let ?c = "snd (Cache_write c addr)"
  have wf: "cache_wf ?c" using assms by (rule Cache_write_wf)
  note w = Cache_write_line [OF assms, of addr]
  from Cache_insert_line(1) [OF wf w(1)]
  show "present (Cache_insert ?c addr d) addr" .
  from Cache_insert_line(2) [OF wf w(1), of d] w(2)
  show "present_dirty (Cache_insert ?c addr d) addr \<longleftrightarrow>
           write_policy c = WRITE_BACK \<or> present_dirty c addr"
    by (auto simp: Cache_write_policy)
qed

text \<open>The state of each level after the call, in terms of the operations on that level.\<close>

lemma write_l1_state:
  "l1 (snd (CacheHierarchy_write h addr)) =
     (if present (l1 h) addr then snd (Cache_write (l1 h) addr)
      else Cache_insert (snd (Cache_write (l1 h) addr)) addr (write_policy (l1 h) = WRITE_BACK))"
  by (cases "l2 h"; cases "l3 h"; cases "write_policy (l1 h)")
     (simp_all add: write_defs)

lemma write_l2_state:
  "l2 (snd (CacheHierarchy_write h addr)) =
     (if present (l1 h) addr then l2 h
      else map_option
             (\<lambda>c. if present c addr then snd (Cache_write c addr)
                  else Cache_insert (snd (Cache_write c addr)) addr
                         (write_policy (l1 h) = WRITE_BACK)) (l2 h))"
  by (cases "l2 h"; cases "l3 h"; cases "write_policy (l1 h)")
     (simp_all add: write_defs)

lemma write_l3_state:
  "l3 (snd (CacheHierarchy_write h addr)) =
     (if present (l1 h) addr \<or> present_opt (l2 h) addr then l3 h
      else map_option
             (\<lambda>c. if present c addr then snd (Cache_write c addr)
                  else Cache_insert (snd (Cache_write c addr)) addr
                         (write_policy (l1 h) = WRITE_BACK)) (l3 h))"
  by (cases "l2 h"; cases "l3 h"; cases "write_policy (l1 h)")
     (simp_all add: write_defs present_opt_def)

text \<open>
  The line of the block after the call, level by level: the levels down to the one that hit
  (all of them on a total miss) hold the block, and there it is dirty exactly when it was
  dirty before or the level is write-back.
\<close>

lemma reached_line:
  fixes c :: Cache and addr :: nat and d :: bool
  defines "c' \<equiv> (if present c addr then snd (Cache_write c addr)
                  else Cache_insert (snd (Cache_write c addr)) addr d)"
  assumes "cache_wf c"
  shows "present c' addr"
    and "present_dirty c' addr \<longleftrightarrow> write_policy c = WRITE_BACK \<or> present_dirty c addr"
  unfolding c'_def using Cache_write_line [OF assms(2), of addr] written_line [OF assms(2), of addr d]
  by simp_all

lemma write_l1_line:
  assumes "cache_wf (l1 h)"
  shows "present (l1 (snd (CacheHierarchy_write h addr))) addr"
    and "present_dirty (l1 (snd (CacheHierarchy_write h addr))) addr \<longleftrightarrow>
           write_policy (l1 h) = WRITE_BACK \<or> present_dirty (l1 h) addr"
  unfolding write_l1_state using reached_line [OF assms, of addr] by simp_all

lemma write_l2_line:
  assumes "cache_wf_opt (l2 h)"
  shows "\<not> present (l1 h) addr \<Longrightarrow> has_l2 h \<Longrightarrow>
         present_opt (l2 (snd (CacheHierarchy_write h addr))) addr"
    and "present_dirty_opt (l2 (snd (CacheHierarchy_write h addr))) addr \<longleftrightarrow>
           present_dirty_opt (l2 h) addr \<or> (\<not> present (l1 h) addr \<and> write_back_opt (l2 h))"
proof -
  show "\<not> present (l1 h) addr \<Longrightarrow> has_l2 h \<Longrightarrow>
         present_opt (l2 (snd (CacheHierarchy_write h addr))) addr"
    using assms reached_line(1)
    by (cases "l2 h") (simp_all add: write_l2_state has_l2_def present_opt_def cache_wf_opt_def)
  show "present_dirty_opt (l2 (snd (CacheHierarchy_write h addr))) addr \<longleftrightarrow>
           present_dirty_opt (l2 h) addr \<or> (\<not> present (l1 h) addr \<and> write_back_opt (l2 h))"
  proof (cases "l2 h")
    case None
    then show ?thesis by (simp add: write_l2_state present_dirty_opt_def write_back_opt_def)
  next
    case (Some c)
    with assms have wf: "cache_wf c" by (simp add: cache_wf_opt_def)
    from reached_line(2) [OF wf, of addr] Some show ?thesis
      by (auto simp: write_l2_state present_dirty_opt_def write_back_opt_def)
  qed
qed

lemma write_l3_line:
  assumes "cache_wf_opt (l3 h)"
  shows "\<not> present (l1 h) addr \<Longrightarrow> \<not> present_opt (l2 h) addr \<Longrightarrow> has_l3 h \<Longrightarrow>
         present_opt (l3 (snd (CacheHierarchy_write h addr))) addr"
    and "present_dirty_opt (l3 (snd (CacheHierarchy_write h addr))) addr \<longleftrightarrow>
           present_dirty_opt (l3 h) addr \<or>
           (\<not> present (l1 h) addr \<and> \<not> present_opt (l2 h) addr \<and> write_back_opt (l3 h))"
proof -
  show "\<not> present (l1 h) addr \<Longrightarrow> \<not> present_opt (l2 h) addr \<Longrightarrow> has_l3 h \<Longrightarrow>
         present_opt (l3 (snd (CacheHierarchy_write h addr))) addr"
    using assms reached_line(1)
    by (cases "l3 h") (simp_all add: write_l3_state has_l3_def present_opt_def cache_wf_opt_def)
  show "present_dirty_opt (l3 (snd (CacheHierarchy_write h addr))) addr \<longleftrightarrow>
           present_dirty_opt (l3 h) addr \<or>
           (\<not> present (l1 h) addr \<and> \<not> present_opt (l2 h) addr \<and> write_back_opt (l3 h))"
  proof (cases "l3 h")
    case None
    then show ?thesis by (simp add: write_l3_state present_dirty_opt_def write_back_opt_def)
  next
    case (Some c)
    with assms have wf: "cache_wf c" by (simp add: cache_wf_opt_def)
    from reached_line(2) [OF wf, of addr] Some show ?thesis
      by (auto simp: write_l3_state present_dirty_opt_def write_back_opt_def)
  qed
qed

lemma present_dirty_opt_present: "present_dirty_opt lv addr \<Longrightarrow> present_opt lv addr"
  by (cases lv) (simp_all add: present_dirty_opt_def present_opt_def present_dirty_present)

text \<open>
  Claim C1, as stated, fails where a level sets the dirty bit by its own policy.  With a
  write-back L1 over a write-through L2 that holds block 0 while L1 does not, the write of
  address 0 hits in L2; it is not counted as a memory write, and the line of L2, the topmost
  level that hit, stays clean.  In the same hierarchy the write of address 128 misses in
  every level; \<^verbatim>\<open>insert\<close> is called on L2 with \<^verbatim>\<open>is_dirty = true\<close>, and the line of L2
  is clean.  With a write-through L1 over a write-back L2 the write of address 128 misses in
  every level; \<^verbatim>\<open>insert\<close> is called on L2 with \<^verbatim>\<open>is_dirty = false\<close>, and the line of
  L2 is dirty, as the \<^verbatim>\<open>write\<close> of L2 had allocated it.
\<close>

theorem C1_dirty_bit_counterexample:
  "write_policy (l1 wb_over_wt) = WRITE_BACK
   \<and> \<not> present (l1 wb_over_wt) 0
   \<and> present_opt (l2 wb_over_wt) 0
   \<and> \<not> fst (CacheHierarchy_write wb_over_wt 0)
   \<and> memory_writes (snd (CacheHierarchy_write wb_over_wt 0)) = memory_writes wb_over_wt
   \<and> \<not> present_dirty_opt (l2 (snd (CacheHierarchy_write wb_over_wt 0))) 0
   \<and> \<not> write_back_opt (l2 wb_over_wt)
   \<and> fst (CacheHierarchy_write wb_over_wt 128)
   \<and> present_opt (l2 (snd (CacheHierarchy_write wb_over_wt 128))) 128
   \<and> \<not> present_dirty_opt (l2 (snd (CacheHierarchy_write wb_over_wt 128))) 128
   \<and> write_policy (l1 wt_over_wb) = WRITE_THROUGH
   \<and> write_back_opt (l2 wt_over_wb)
   \<and> fst (CacheHierarchy_write wt_over_wb 128)
   \<and> present_dirty_opt (l2 (snd (CacheHierarchy_write wt_over_wb 128))) 128"
  by code_simp

text \<open>
  Claim C1, amended.  For a write of \<open>addr\<close> to a hierarchy whose levels are well formed:
  the call reports a memory access exactly when no level holds the block; whether it hits or
  not, \<^verbatim>\<open>memory_writes\<close> grows by one exactly when L1 is write-through;
  \<^verbatim>\<open>memory_accesses\<close> grows by one exactly on a total miss, and then the penalty added is
  the miss penalty of every level there is plus \<^verbatim>\<open>memory_penalty\<close>, and afterwards every
  level there is holds the block: in L1 its line is dirty exactly when L1 is write-back, in a
  write-through level it is clean, and when L1 is write-back it is dirty in every write-back
  level.  When L1 is write-back the write is held as a dirty line in L1 in every case, and
  the line of the topmost level that hit is dirty when that level is itself write-back.  In
  every case a write-through level whose line of the block was clean keeps it clean.  The
  statement leaves open the line of a write-back level below a write-through L1 after a total
  miss: there the hierarchy passes \<^verbatim>\<open>is_dirty = false\<close> and reports the level as clean,
  while the line is dirty (lemma \<open>write_l2_line\<close>).
\<close>

theorem C1_write_path:
  assumes "cache_wf (l1 h)" and "cache_wf_opt (l2 h)" and "cache_wf_opt (l3 h)"
  shows "(fst (CacheHierarchy_write h addr) \<longleftrightarrow>
            \<not> present (l1 h) addr \<and> \<not> present_opt (l2 h) addr \<and> \<not> present_opt (l3 h) addr)
    \<and> memory_writes (snd (CacheHierarchy_write h addr)) =
         memory_writes h + (if write_policy (l1 h) = WRITE_THROUGH then 1 else 0)
    \<and> memory_accesses (snd (CacheHierarchy_write h addr)) =
         memory_accesses h + (if fst (CacheHierarchy_write h addr) then 1 else 0)
    \<and> (fst (CacheHierarchy_write h addr) \<longrightarrow>
         total_penalty_cycles (snd (CacheHierarchy_write h addr)) =
           total_penalty_cycles h + (l1_penalty h + (if has_l2 h then l2_penalty h else 0)
             + (if has_l3 h then l3_penalty h else 0) + memory_penalty h)
         \<and> present (l1 (snd (CacheHierarchy_write h addr))) addr
         \<and> (has_l2 h \<longrightarrow> present_opt (l2 (snd (CacheHierarchy_write h addr))) addr)
         \<and> (has_l3 h \<longrightarrow> present_opt (l3 (snd (CacheHierarchy_write h addr))) addr)
         \<and> (present_dirty (l1 (snd (CacheHierarchy_write h addr))) addr \<longleftrightarrow>
              write_policy (l1 h) = WRITE_BACK)
         \<and> (write_policy (l1 h) = WRITE_BACK \<longrightarrow>
              (present_dirty_opt (l2 (snd (CacheHierarchy_write h addr))) addr \<longleftrightarrow>
                 write_back_opt (l2 h))
              \<and> (present_dirty_opt (l3 (snd (CacheHierarchy_write h addr))) addr \<longleftrightarrow>
                 write_back_opt (l3 h)))
         \<and> (\<not> write_back_opt (l2 h) \<longrightarrow>
              \<not> present_dirty_opt (l2 (snd (CacheHierarchy_write h addr))) addr)
         \<and> (\<not> write_back_opt (l3 h) \<longrightarrow>
              \<not> present_dirty_opt (l3 (snd (CacheHierarchy_write h addr))) addr))
    \<and> (write_policy (l1 h) = WRITE_BACK \<longrightarrow>
         present_dirty (l1 (snd (CacheHierarchy_write h addr))) addr
         \<and> (\<not> present (l1 h) addr \<and> present_opt (l2 h) addr \<and> write_back_opt (l2 h) \<longrightarrow>
              present_dirty_opt (l2 (snd (CacheHierarchy_write h addr))) addr)
         \<and> (\<not> present (l1 h) addr \<and> \<not> present_opt (l2 h) addr \<and> present_opt (l3 h) addr
              \<and> write_back_opt (l3 h) \<longrightarrow>
              present_dirty_opt (l3 (snd (CacheHierarchy_write h addr))) addr))
    \<and> (write_policy (l1 h) = WRITE_THROUGH \<and> \<not> present_dirty (l1 h) addr \<longrightarrow>
         \<not> present_dirty (l1 (snd (CacheHierarchy_write h addr))) addr)
    \<and> (\<not> write_back_opt (l2 h) \<and> \<not> present_dirty_opt (l2 h) addr \<longrightarrow>
         \<not> present_dirty_opt (l2 (snd (CacheHierarchy_write h addr))) addr)
    \<and> (\<not> write_back_opt (l3 h) \<and> \<not> present_dirty_opt (l3 h) addr \<longrightarrow>
         \<not> present_dirty_opt (l3 (snd (CacheHierarchy_write h addr))) addr)"
proof -
  have wt: "(write_policy (l1 h) = WRITE_THROUGH) = (write_policy (l1 h) \<noteq> WRITE_BACK)"
    by (cases "write_policy (l1 h)") simp_all
  show ?thesis
    using write_result [of h addr] write_memory_writes [of h addr] write_memory_accesses [of h addr]
      write_total_miss_penalty [of h addr]
      write_l1_line [OF assms(1), of addr]
      write_l2_line [OF assms(2), of addr] write_l3_line [OF assms(3), of addr]
      present_dirty_present [of "l1 h" addr]
      present_dirty_opt_present [of "l2 h" addr] present_dirty_opt_present [of "l3 h" addr]
    unfolding wt by blast
qed

theorem C1_write_path_witness:
  "fst (CacheHierarchy_write fresh_wb3 0)
   \<and> memory_accesses (snd (CacheHierarchy_write fresh_wb3 0)) = 1
   \<and> memory_writes (snd (CacheHierarchy_write fresh_wb3 0)) = 0
   \<and> total_penalty_cycles (snd (CacheHierarchy_write fresh_wb3 0)) = 161
   \<and> present_dirty (l1 (snd (CacheHierarchy_write fresh_wb3 0))) 0
   \<and> present_dirty_opt (l2 (snd (CacheHierarchy_write fresh_wb3 0))) 0
   \<and> present_dirty_opt (l3 (snd (CacheHierarchy_write fresh_wb3 0))) 0
   \<and> \<not> fst (CacheHierarchy_write wb_over_wb 0)
   \<and> memory_writes (snd (CacheHierarchy_write wb_over_wb 0)) = 0
   \<and> memory_accesses (snd (CacheHierarchy_write wb_over_wb 0)) = 2
   \<and> present_dirty_opt (l2 (snd (CacheHierarchy_write wb_over_wb 0))) 0
   \<and> \<not> fst (CacheHierarchy_write wt_over_wb 0)
   \<and> memory_writes (snd (CacheHierarchy_write wt_over_wb 0)) = 1
   \<and> present_dirty (l1 (snd (CacheHierarchy_write wb_over_wt 0))) 0
   \<and> \<not> present_dirty_opt (l2 (snd (CacheHierarchy_write wb_over_wt 0))) 0
   \<and> fst (CacheHierarchy_write wb_over_wt 128)
   \<and> present_dirty (l1 (snd (CacheHierarchy_write wb_over_wt 128))) 128
   \<and> present_opt (l2 (snd (CacheHierarchy_write wb_over_wt 128))) 128
   \<and> \<not> present_dirty_opt (l2 (snd (CacheHierarchy_write wb_over_wt 128))) 128
   \<and> fst (CacheHierarchy_write wt_over_wb 128)
   \<and> memory_writes (snd (CacheHierarchy_write wt_over_wb 128)) = 1
   \<and> present (l1 (snd (CacheHierarchy_write wt_over_wb 128))) 128
   \<and> \<not> present_dirty (l1 (snd (CacheHierarchy_write wt_over_wb 128))) 128"
proof -
  have f: "cache_wf (l1 fresh_wb3)" "cache_wf_opt (l2 fresh_wb3)" "cache_wf_opt (l3 fresh_wb3)"
    "write_policy (l1 fresh_wb3) = WRITE_BACK" "\<not> present (l1 fresh_wb3) 0"
    "\<not> present_opt (l2 fresh_wb3) 0" "\<not> present_opt (l3 fresh_wb3) 0"
    "has_l2 fresh_wb3" "has_l3 fresh_wb3"
    "memory_accesses fresh_wb3 = 0" "memory_writes fresh_wb3 = 0"
    "total_penalty_cycles fresh_wb3 = 0" "l1_penalty fresh_wb3 = 1" "l2_penalty fresh_wb3 = 10"
    "l3_penalty fresh_wb3 = 50" "memory_penalty fresh_wb3 = 100"
    "write_back_opt (l2 fresh_wb3)" "write_back_opt (l3 fresh_wb3)"
    by code_simp+
  have b: "cache_wf (l1 wb_over_wb)" "cache_wf_opt (l2 wb_over_wb)" "cache_wf_opt (l3 wb_over_wb)"
    "write_policy (l1 wb_over_wb) = WRITE_BACK" "\<not> present (l1 wb_over_wb) 0"
    "present_opt (l2 wb_over_wb) 0" "write_back_opt (l2 wb_over_wb)"
    "memory_accesses wb_over_wb = 2" "memory_writes wb_over_wb = 0"
    by code_simp+
  have t: "cache_wf (l1 wt_over_wb)" "cache_wf_opt (l2 wt_over_wb)" "cache_wf_opt (l3 wt_over_wb)"
    "write_policy (l1 wt_over_wb) = WRITE_THROUGH" "\<not> present (l1 wt_over_wb) 0"
    "present_opt (l2 wt_over_wb) 0" "memory_writes wt_over_wb = 0"
    by code_simp+
  have n: "\<not> present (l1 wt_over_wb) 128" "\<not> present_opt (l2 wt_over_wb) 128"
    "\<not> present_opt (l3 wt_over_wb) 128"
    by code_simp+
  have m: "cache_wf (l1 wb_over_wt)" "cache_wf_opt (l2 wb_over_wt)" "cache_wf_opt (l3 wb_over_wt)"
    "write_policy (l1 wb_over_wt) = WRITE_BACK" "\<not> write_back_opt (l2 wb_over_wt)"
    "\<not> present_dirty_opt (l2 wb_over_wt) 0"
    "\<not> present (l1 wb_over_wt) 128" "\<not> present_opt (l2 wb_over_wt) 128"
    "\<not> present_opt (l3 wb_over_wt) 128" "has_l2 wb_over_wt"
    by code_simp+
  from C1_write_path [OF f(1,2,3), of 0] f(4-)
  have 1: "fst (CacheHierarchy_write fresh_wb3 0)
   \<and> memory_accesses (snd (CacheHierarchy_write fresh_wb3 0)) = 1
   \<and> memory_writes (snd (CacheHierarchy_write fresh_wb3 0)) = 0
   \<and> total_penalty_cycles (snd (CacheHierarchy_write fresh_wb3 0)) = 161"
    by simp
  from C1_write_path [OF f(1,2,3), of 0] f(4-7,17,18)
  have d1: "present_dirty (l1 (snd (CacheHierarchy_write fresh_wb3 0))) 0
   \<and> present_dirty_opt (l2 (snd (CacheHierarchy_write fresh_wb3 0))) 0
   \<and> present_dirty_opt (l3 (snd (CacheHierarchy_write fresh_wb3 0))) 0"
    by blast
  from C1_write_path [OF b(1,2,3), of 0] b(4-)
  have 2: "\<not> fst (CacheHierarchy_write wb_over_wb 0)
   \<and> memory_writes (snd (CacheHierarchy_write wb_over_wb 0)) = 0
   \<and> memory_accesses (snd (CacheHierarchy_write wb_over_wb 0)) = 2"
    by simp
  from C1_write_path [OF b(1,2,3), of 0] b(4-7)
  have d2: "present_dirty_opt (l2 (snd (CacheHierarchy_write wb_over_wb 0))) 0"
    by blast
  from C1_write_path [OF t(1,2,3), of 0] t(4-)
  have 3: "\<not> fst (CacheHierarchy_write wt_over_wb 0)
   \<and> memory_writes (snd (CacheHierarchy_write wt_over_wb 0)) = 1"
    by simp
  from C1_write_path [OF m(1,2,3), of 0] m(4,5,6)
  have d4: "present_dirty (l1 (snd (CacheHierarchy_write wb_over_wt 0))) 0
   \<and> \<not> present_dirty_opt (l2 (snd (CacheHierarchy_write wb_over_wt 0))) 0"
    by blast
  from C1_write_path [OF m(1,2,3), of 128] m(4,5,7-)
  have d5: "fst (CacheHierarchy_write wb_over_wt 128)
   \<and> present_dirty (l1 (snd (CacheHierarchy_write wb_over_wt 128))) 128
   \<and> present_opt (l2 (snd (CacheHierarchy_write wb_over_wt 128))) 128
   \<and> \<not> present_dirty_opt (l2 (snd (CacheHierarchy_write wb_over_wt 128))) 128"
    by blast
  from C1_write_path [OF t(1,2,3), of 128] t(4,7) n
  have 6: "fst (CacheHierarchy_write wt_over_wb 128)
   \<and> memory_writes (snd (CacheHierarchy_write wt_over_wb 128)) = 1"
    by simp
  from C1_write_path [OF t(1,2,3), of 128] t(4) n
  have d6: "present (l1 (snd (CacheHierarchy_write wt_over_wb 128))) 128
   \<and> \<not> present_dirty (l1 (snd (CacheHierarchy_write wt_over_wb 128))) 128"
    by simp
  from 1 d1 2 d2 3 d4 d5 6 d6 show ?thesis by simp
qed
section \<open>The three-level read scenario\<close>

lemma l1_trace:
  assumes "a1 = DIRECT_MAPPED \<or> a1 = FULLY_ASSOCIATIVE"
  shows "\<not> fst (Cache_read (Cache_new ''L1'' 1 64 a1 r1 WRITE_BACK) 0)"
    and "\<not> fst (Cache_read (cache_run (Cache_new ''L1'' 1 64 a1 r1 WRITE_BACK)
                  [Read 0, Insert 0 False]) 64)"
    and "\<not> fst (Cache_read (cache_run (Cache_new ''L1'' 1 64 a1 r1 WRITE_BACK)
                  [Read 0, Insert 0 False, Read 64, Insert 64 False]) 0)"
    and "present (cache_run (Cache_new ''L1'' 1 64 a1 r1 WRITE_BACK)
                  [Read 0, Insert 0 False, Read 64, Insert 64 False, Read 0, Insert 0 False]) 0"
proof -
  have dm: "\<not> fst (Cache_read (Cache_new ''L1'' 1 64 DIRECT_MAPPED r1 WRITE_BACK) 0)"
    "\<not> fst (Cache_read (cache_run (Cache_new ''L1'' 1 64 DIRECT_MAPPED r1 WRITE_BACK)
                  [Read 0, Insert 0 False]) 64)"
    "\<not> fst (Cache_read (cache_run (Cache_new ''L1'' 1 64 DIRECT_MAPPED r1 WRITE_BACK)
                  [Read 0, Insert 0 False, Read 64, Insert 64 False]) 0)"
    "present (cache_run (Cache_new ''L1'' 1 64 DIRECT_MAPPED r1 WRITE_BACK)
                  [Read 0, Insert 0 False, Read 64, Insert 64 False, Read 0, Insert 0 False]) 0"
    by (cases r1; hypsubst; code_simp)+
  have fa: "\<not> fst (Cache_read (Cache_new ''L1'' 1 64 FULLY_ASSOCIATIVE r1 WRITE_BACK) 0)"
    "\<not> fst (Cache_read (cache_run (Cache_new ''L1'' 1 64 FULLY_ASSOCIATIVE r1 WRITE_BACK)
                  [Read 0, Insert 0 False]) 64)"
    "\<not> fst (Cache_read (cache_run (Cache_new ''L1'' 1 64 FULLY_ASSOCIATIVE r1 WRITE_BACK)
                  [Read 0, Insert 0 False, Read 64, Insert 64 False]) 0)"
    "present (cache_run (Cache_new ''L1'' 1 64 FULLY_ASSOCIATIVE r1 WRITE_BACK)
                  [Read 0, Insert 0 False, Read 64, Insert 64 False, Read 0, Insert 0 False]) 0"
    by (cases r1; hypsubst; code_simp)+
  from assms dm fa
  show "\<not> fst (Cache_read (Cache_new ''L1'' 1 64 a1 r1 WRITE_BACK) 0)"
    and "\<not> fst (Cache_read (cache_run (Cache_new ''L1'' 1 64 a1 r1 WRITE_BACK)
                  [Read 0, Insert 0 False]) 64)"
    and "\<not> fst (Cache_read (cache_run (Cache_new ''L1'' 1 64 a1 r1 WRITE_BACK)
                  [Read 0, Insert 0 False, Read 64, Insert 64 False]) 0)"
    and "present (cache_run (Cache_new ''L1'' 1 64 a1 r1 WRITE_BACK)
                  [Read 0, Insert 0 False, Read 64, Insert 64 False, Read 0, Insert 0 False]) 0"
    by blast+
qed

lemma l2_trace_at:
  assumes "a2 = DIRECT_MAPPED \<or> a2 = TWO_WAY \<or> a2 = FULLY_ASSOCIATIVE"
  shows "\<not> fst (Cache_read (Cache_new ''L2'' 2 64 a2 r2 WRITE_BACK) 0)
    \<and> \<not> fst (Cache_read (cache_run (Cache_new ''L2'' 2 64 a2 r2 WRITE_BACK)
                  [Read 0, Insert 0 False]) 64)
    \<and> fst (Cache_read (cache_run (Cache_new ''L2'' 2 64 a2 r2 WRITE_BACK)
                  [Read 0, Insert 0 False, Read 64, Insert 64 False]) 0)"
proof -
  have "\<not> fst (Cache_read (Cache_new ''L2'' 2 64 DIRECT_MAPPED r2 WRITE_BACK) 0)
    \<and> \<not> fst (Cache_read (cache_run (Cache_new ''L2'' 2 64 DIRECT_MAPPED r2 WRITE_BACK)
                  [Read 0, Insert 0 False]) 64)
    \<and> fst (Cache_read (cache_run (Cache_new ''L2'' 2 64 DIRECT_MAPPED r2 WRITE_BACK)
                  [Read 0, Insert 0 False, Read 64, Insert 64 False]) 0)"
    by (cases r2; hypsubst; code_simp)
  moreover have "\<not> fst (Cache_read (Cache_new ''L2'' 2 64 TWO_WAY r2 WRITE_BACK) 0)
    \<and> \<not> fst (Cache_read (cache_run (Cache_new ''L2'' 2 64 TWO_WAY r2 WRITE_BACK)
                  [Read 0, Insert 0 False]) 64)
    \<and> fst (Cache_read (cache_run (Cache_new ''L2'' 2 64 TWO_WAY r2 WRITE_BACK)
                  [Read 0, Insert 0 False, Read 64, Insert 64 False]) 0)"
    by (cases r2; hypsubst; code_simp)
  moreover have "\<not> fst (Cache_read (Cache_new ''L2'' 2 64 FULLY_ASSOCIATIVE r2 WRITE_BACK) 0)
    \<and> \<not> fst (Cache_read (cache_run (Cache_new ''L2'' 2 64 FULLY_ASSOCIATIVE r2 WRITE_BACK)
                  [Read 0, Insert 0 False]) 64)
    \<and> fst (Cache_read (cache_run (Cache_new ''L2'' 2 64 FULLY_ASSOCIATIVE r2 WRITE_BACK)
                  [Read 0, Insert 0 False, Read 64, Insert 64 False]) 0)"
    by (cases r2; hypsubst; code_simp)
  ultimately show ?thesis using assms by blast
qed

lemma l3_trace:
  "\<not> fst (Cache_read (Cache_new ''L3'' 4 64 a3 r3 WRITE_BACK) 0)
   \<and> \<not> fst (Cache_read (cache_run (Cache_new ''L3'' 4 64 a3 r3 WRITE_BACK)
                  [Read 0, Insert 0 False]) 64)"
  by (cases r3; cases a3; hypsubst; code_simp)


text \<open>
  Claim C3, as stated: with L1 of 1 line, L2 of 2 lines and L3 of 4 lines, all write-back
  and empty, the reads of 0, 64 and 0 leave \<open>total_penalty_cycles = (100+11) + (100+11) +
  (1+10)\<close>.  A total miss also pays the miss penalty of L3, so each of the first two
  reads costs \<open>1 + 10 + 50 + 100\<close>.
\<close>

theorem C3_penalty_counterexample:
  "total_penalty_cycles (hier_run fresh_wb3 [HRead 0, HRead 64, HRead 0])
     \<noteq> (100 + 11) + (100 + 11) + (1 + 10)"
  by code_simp

text \<open>
  Claim C3, amended: for blocks of 64 bytes, every replacement policy and every
  associativity that the line counts admit (L1 direct-mapped or fully associative, L2 not
  4-way), the third read misses in L1 and hits in L2, and the final counters are
  \<open>l1_hits = 0\<close>, \<open>l2_hits = 1\<close>, \<open>l3_hits = 0\<close>, \<open>memory_accesses = 2\<close> and
  \<open>total_penalty_cycles = (100+50+11) + (100+50+11) + (1+10) = 333\<close>; block 0 is back
  in L1 afterwards.
\<close>

theorem C3_three_level_refill:
  assumes "a1 = DIRECT_MAPPED \<or> a1 = FULLY_ASSOCIATIVE"
    and "a2 = DIRECT_MAPPED \<or> a2 = TWO_WAY \<or> a2 = FULLY_ASSOCIATIVE"
  shows "\<not> fst (Cache_read (l1 (hier_run (CacheHierarchy_new 1 64 a1 r1 WRITE_BACK
                                 2 64 a2 r2 WRITE_BACK 4 64 a3 r3 WRITE_BACK) [HRead 0, HRead 64])) 0)
    \<and> map_option (\<lambda>c. fst (Cache_read c 0))
         (l2 (hier_run (CacheHierarchy_new 1 64 a1 r1 WRITE_BACK
                                 2 64 a2 r2 WRITE_BACK 4 64 a3 r3 WRITE_BACK) [HRead 0, HRead 64]))
       = Some True
    \<and> l1_hits (hier_run (CacheHierarchy_new 1 64 a1 r1 WRITE_BACK
                 2 64 a2 r2 WRITE_BACK 4 64 a3 r3 WRITE_BACK) [HRead 0, HRead 64, HRead 0]) = 0
    \<and> l2_hits (hier_run (CacheHierarchy_new 1 64 a1 r1 WRITE_BACK
                 2 64 a2 r2 WRITE_BACK 4 64 a3 r3 WRITE_BACK) [HRead 0, HRead 64, HRead 0]) = 1
    \<and> l3_hits (hier_run (CacheHierarchy_new 1 64 a1 r1 WRITE_BACK
                 2 64 a2 r2 WRITE_BACK 4 64 a3 r3 WRITE_BACK) [HRead 0, HRead 64, HRead 0]) = 0
    \<and> memory_accesses (hier_run (CacheHierarchy_new 1 64 a1 r1 WRITE_BACK
                 2 64 a2 r2 WRITE_BACK 4 64 a3 r3 WRITE_BACK) [HRead 0, HRead 64, HRead 0]) = 2
    \<and> total_penalty_cycles (hier_run (CacheHierarchy_new 1 64 a1 r1 WRITE_BACK
                 2 64 a2 r2 WRITE_BACK 4 64 a3 r3 WRITE_BACK) [HRead 0, HRead 64, HRead 0])
        = (100 + 50 + 11) + (100 + 50 + 11) + (1 + 10)
    \<and> present (l1 (hier_run (CacheHierarchy_new 1 64 a1 r1 WRITE_BACK
                 2 64 a2 r2 WRITE_BACK 4 64 a3 r3 WRITE_BACK) [HRead 0, HRead 64, HRead 0])) 0"
  using l1_trace [OF assms(1), of r1] l2_trace_at [OF assms(2), of r2] l3_trace [of a3 r3]
  by (simp add: hier_run_def CacheHierarchy_read_def read_l2_def read_l3_def read_memory_def
        CacheHierarchy_new_def Let_def split_def cache_run_def)

theorem C3_three_level_refill_witness:
  "l1_hits (hier_run (CacheHierarchy_new 1 64 FULLY_ASSOCIATIVE ReplacementPolicy.FIFO WRITE_BACK
              2 64 TWO_WAY ReplacementPolicy.LRU WRITE_BACK
              4 64 FOUR_WAY ReplacementPolicy.FIFO WRITE_BACK) [HRead 0, HRead 64, HRead 0]) = 0
   \<and> l2_hits (hier_run (CacheHierarchy_new 1 64 FULLY_ASSOCIATIVE ReplacementPolicy.FIFO WRITE_BACK
              2 64 TWO_WAY ReplacementPolicy.LRU WRITE_BACK
              4 64 FOUR_WAY ReplacementPolicy.FIFO WRITE_BACK) [HRead 0, HRead 64, HRead 0]) = 1
   \<and> memory_accesses (hier_run (CacheHierarchy_new 1 64 FULLY_ASSOCIATIVE ReplacementPolicy.FIFO WRITE_BACK
              2 64 TWO_WAY ReplacementPolicy.LRU WRITE_BACK
              4 64 FOUR_WAY ReplacementPolicy.FIFO WRITE_BACK) [HRead 0, HRead 64, HRead 0]) = 2
   \<and> total_penalty_cycles (hier_run (CacheHierarchy_new 1 64 FULLY_ASSOCIATIVE ReplacementPolicy.FIFO WRITE_BACK
              2 64 TWO_WAY ReplacementPolicy.LRU WRITE_BACK
              4 64 FOUR_WAY ReplacementPolicy.FIFO WRITE_BACK) [HRead 0, HRead 64, HRead 0]) = 333"
  using C3_three_level_refill [of FULLY_ASSOCIATIVE TWO_WAY ReplacementPolicy.FIFO
          ReplacementPolicy.LRU FOUR_WAY ReplacementPolicy.FIFO]
  by simp

section \<open>Properties of the contiguous allocator\<close>

subsection \<open>The block that a strategy selects\<close>

lemma first_fit_from_fits:
  "first_fit_from sz k bs = Some i \<Longrightarrow> k \<le> i \<and> fits sz bs (i - k)"
proof (induction bs arbitrary: k)
  case Nil
  then show ?case by simp
next
  case (Cons b bs)
  show ?case
  proof (cases "\<not> is_allocated b \<and> MemoryBlock.size_bytes b \<ge> sz")
    case True
    with Cons.prems show ?thesis by (simp add: fits_def)
  next
    case False
    with Cons.prems have "first_fit_from sz (Suc k) bs = Some i" by auto
    from Cons.IH [OF this] have "Suc k \<le> i" "fits sz bs (i - Suc k)" by simp_all
    then show ?thesis by (auto simp: fits_def Suc_diff_le)
  qed
qed

lemma best_fit_from_fits:
  "best_fit_from sz k (best, d) bs = Some i \<Longrightarrow> best = Some i \<or> (k \<le> i \<and> fits sz bs (i - k))"
proof (induction bs arbitrary: k best d)
  case Nil
  then show ?case by simp
next
  case (Cons b bs)
  show ?case
  proof (cases "\<not> is_allocated b \<and> MemoryBlock.size_bytes b \<ge> sz \<and> MemoryBlock.size_bytes b - sz < d")
    case True
    with Cons.prems have "best_fit_from sz (Suc k) (Some k, MemoryBlock.size_bytes b - sz) bs = Some i" by simp
    from Cons.IH [OF this] have "k = i \<or> (Suc k \<le> i \<and> fits sz bs (i - Suc k))" by simp
    with True show ?thesis by (auto simp: fits_def Suc_diff_le)
  next
    case False
    with Cons.prems have "best_fit_from sz (Suc k) (best, d) bs = Some i" by auto
    from Cons.IH [OF this] have "best = Some i \<or> (Suc k \<le> i \<and> fits sz bs (i - Suc k))" by simp
    then show ?thesis by (auto simp: fits_def Suc_diff_le)
  qed
qed

lemma worst_fit_from_fits:
  "worst_fit_from sz k (worst, m) bs = Some i \<Longrightarrow> worst = Some i \<or> (k \<le> i \<and> fits sz bs (i - k))"
proof (induction bs arbitrary: k worst m)
  case Nil
  then show ?case by simp
next
  case (Cons b bs)
  show ?case
  proof (cases "\<not> is_allocated b \<and> MemoryBlock.size_bytes b \<ge> sz \<and> MemoryBlock.size_bytes b > m")
    case True
    with Cons.prems have "worst_fit_from sz (Suc k) (Some k, MemoryBlock.size_bytes b) bs = Some i" by simp
    from Cons.IH [OF this] have "k = i \<or> (Suc k \<le> i \<and> fits sz bs (i - Suc k))" by simp
    with True show ?thesis by (auto simp: fits_def Suc_diff_le)
  next
    case False
    with Cons.prems have "worst_fit_from sz (Suc k) (worst, m) bs = Some i" by auto
    from Cons.IH [OF this] have "worst = Some i \<or> (Suc k \<le> i \<and> fits sz bs (i - Suc k))" by simp
    then show ?thesis by (auto simp: fits_def Suc_diff_le)
  qed
qed

subsection \<open>The list after an allocation\<close>

lemma chosen_fits:
  assumes "(case strategy s of
                FIRST_FIT \<Rightarrow> findBlockFirstFit s sz
              | BEST_FIT \<Rightarrow> findBlockBestFit s sz
              | WORST_FIT \<Rightarrow> findBlockWorstFit s sz) = Some i"
  shows "fits sz (blocks s) i"
proof (cases "strategy s")
  case FIRST_FIT
  with assms first_fit_from_fits [of sz 0 "blocks s" i] show ?thesis
    by (simp add: findBlockFirstFit_def)
next
  case BEST_FIT
  with assms best_fit_from_fits [of sz 0 None _ "blocks s" i] show ?thesis
    by (simp add: findBlockBestFit_def)
next
  case WORST_FIT
  with assms worst_fit_from_fits [of sz 0 None _ "blocks s" i] show ?thesis
    by (simp add: findBlockWorstFit_def)
qed

lemma split_mark_shape:
  "(MemoryManager_splitBlock (pre @ b # post) (length pre) sz)
     [length pre := (MemoryManager_splitBlock (pre @ b # post) (length pre) sz ! length pre)
        \<lparr>is_allocated := True, MemoryBlock.block_id := nid\<rparr>]
   = pre @ placed b sz nid @ post"
  by (simp add: MemoryManager_splitBlock_def placed_def Let_def nth_append list_update_append)

lemma chosen_attempts:
  "(case strategy (s\<lparr>allocation_attempts := n\<rparr>) of
                FIRST_FIT \<Rightarrow> findBlockFirstFit (s\<lparr>allocation_attempts := n\<rparr>) sz
              | BEST_FIT \<Rightarrow> findBlockBestFit (s\<lparr>allocation_attempts := n\<rparr>) sz
              | WORST_FIT \<Rightarrow> findBlockWorstFit (s\<lparr>allocation_attempts := n\<rparr>) sz) = chosen s sz"
  by (simp add: chosen_def findBlockFirstFit_def findBlockBestFit_def findBlockWorstFit_def
           split: AllocationStrategy.splits)

lemma allocate_unfold:
  "MemoryManager_allocate s sz =
     (if sz = 0 \<or> chosen s sz = None then
        (-1, s\<lparr>allocation_attempts := allocation_attempts s + 1,
               allocation_failures := allocation_failures s + 1\<rparr>)
      else
        (MemoryManager.next_block_id s,
         s\<lparr>allocation_attempts := allocation_attempts s + 1,
           blocks := (MemoryManager_splitBlock (blocks s) (the (chosen s sz)) sz)
                      [the (chosen s sz) := (MemoryManager_splitBlock (blocks s) (the (chosen s sz)) sz ! the (chosen s sz))
                         \<lparr>is_allocated := True, MemoryBlock.block_id := MemoryManager.next_block_id s\<rparr>],
           allocation_successes := allocation_successes s + 1,
           MemoryManager.next_block_id := MemoryManager.next_block_id s + 1\<rparr>))"
  unfolding MemoryManager_allocate_def Let_def chosen_attempts
  by (cases "chosen s sz") simp_all

lemma allocate_result:
  assumes "MemoryManager_allocate s sz = (bid, s')"
  shows "(blocks s' = blocks s \<and> MemoryManager.next_block_id s' = MemoryManager.next_block_id s \<and>
          MemoryManager.total_memory s' = MemoryManager.total_memory s) \<or>
         (\<exists>pre b post. blocks s = pre @ b # post \<and> \<not> is_allocated b \<and>
           sz \<le> MemoryBlock.size_bytes b \<and>
           blocks s' = pre @ placed b sz (MemoryManager.next_block_id s) @ post \<and>
           MemoryManager.next_block_id s' = MemoryManager.next_block_id s + 1 \<and>
           MemoryManager.total_memory s' = MemoryManager.total_memory s)"
proof (cases "sz = 0 \<or> chosen s sz = None")
  case True
  with assms have "s' = s\<lparr>allocation_attempts := allocation_attempts s + 1,
               allocation_failures := allocation_failures s + 1\<rparr>"
    by (simp add: allocate_unfold)
  then show ?thesis by simp
next
  case False
  then obtain i where c: "chosen s sz = Some i" by auto
  from chosen_fits [of s sz i] c have f: "fits sz (blocks s) i" by (simp add: chosen_def)
  define pre where "pre = take i (blocks s)"
  define b where "b = blocks s ! i"
  define post where "post = drop (Suc i) (blocks s)"
  have bs: "blocks s = pre @ b # post" and len: "length pre = i"
    using f by (simp_all add: pre_def b_def post_def fits_def id_take_nth_drop)
  have "s' = s\<lparr>allocation_attempts := allocation_attempts s + 1,
           blocks := (MemoryManager_splitBlock (blocks s) i sz)
                      [i := (MemoryManager_splitBlock (blocks s) i sz ! i)
                         \<lparr>is_allocated := True, MemoryBlock.block_id := MemoryManager.next_block_id s\<rparr>],
           allocation_successes := allocation_successes s + 1,
           MemoryManager.next_block_id := MemoryManager.next_block_id s + 1\<rparr>"
    using assms False c by (auto simp: allocate_unfold)
  then have "blocks s' = pre @ placed b sz (MemoryManager.next_block_id s) @ post"
    "MemoryManager.next_block_id s' = MemoryManager.next_block_id s + 1"
    "MemoryManager.total_memory s' = MemoryManager.total_memory s"
    using split_mark_shape [of pre b post sz "MemoryManager.next_block_id s"]
    by (simp_all add: bs len)
  moreover have "\<not> is_allocated b" "sz \<le> MemoryBlock.size_bytes b"
    using f by (simp_all add: fits_def b_def)
  ultimately show ?thesis using bs by blast
qed

subsection \<open>Layout of the list\<close>

lemma tiles_from_append:
  "tiles_from a (xs @ ys) \<longleftrightarrow>
     tiles_from a xs \<and> tiles_from (a + sum_list (map MemoryBlock.size_bytes xs)) ys"
  by (induction xs arbitrary: a) (auto simp: add.assoc)

lemma naf_append:
  "no_adjacent_free (xs @ y # ys) \<longleftrightarrow> no_adjacent_free (xs @ [y]) \<and> no_adjacent_free (y # ys)"
  by (induction xs rule: no_adjacent_free.induct) auto

lemma naf_last_allocated:
  "no_adjacent_free (xs @ [y]) \<Longrightarrow> is_allocated z \<Longrightarrow> no_adjacent_free (xs @ [z])"
  by (induction xs rule: no_adjacent_free.induct) auto

lemma naf_head_allocated:
  "no_adjacent_free (y # ys) \<Longrightarrow> is_allocated z \<Longrightarrow> no_adjacent_free (z # ys)"
  by (cases ys) auto

lemma naf_head_free:
  "no_adjacent_free (y # ys) \<Longrightarrow> \<not> is_allocated y \<Longrightarrow> no_adjacent_free (z # ys)"
  by (cases ys) auto

lemma naf_placed:
  assumes "no_adjacent_free (pre @ b # post)" "\<not> is_allocated b"
  shows "no_adjacent_free (pre @ placed b sz nid @ post)"
proof (cases "MemoryBlock.size_bytes b > sz")
  case True
  define b1 where "b1 = b\<lparr>MemoryBlock.size_bytes := sz, is_allocated := True, MemoryBlock.block_id := nid\<rparr>"
  define b2 where "b2 = \<lparr>start_address = start_address b + sz, size_bytes = MemoryBlock.size_bytes b - sz,
             is_allocated = False, block_id = -1\<rparr>"
  have p: "placed b sz nid = [b1, b2]" using True by (simp add: placed_def b1_def b2_def)
  from assms(1) have a: "no_adjacent_free (pre @ [b])" "no_adjacent_free (b # post)"
    by (simp_all add: naf_append [of pre b post])
  have "no_adjacent_free (pre @ [b1])" using a(1) by (rule naf_last_allocated) (simp add: b1_def)
  moreover have "no_adjacent_free (b2 # post)" using a(2) assms(2) by (rule naf_head_free)
  then have "no_adjacent_free (b1 # b2 # post)" by (simp add: b1_def)
  ultimately show ?thesis unfolding p using naf_append [of pre b1 "b2 # post"] by simp
next
  case False
  define b1 where "b1 = b\<lparr>is_allocated := True, MemoryBlock.block_id := nid\<rparr>"
  have p: "placed b sz nid = [b1]" using False by (simp add: placed_def b1_def)
  from assms(1) have a: "no_adjacent_free (pre @ [b])" "no_adjacent_free (b # post)"
    by (simp_all add: naf_append [of pre b post])
  have "no_adjacent_free (pre @ [b1])" using a(1) by (rule naf_last_allocated) (simp add: b1_def)
  moreover have "no_adjacent_free (b1 # post)" using a(2) by (rule naf_head_allocated) (simp add: b1_def)
  ultimately show ?thesis unfolding p using naf_append [of pre b1 post] by simp
qed

lemma tiles_placed:
  assumes "tiles_from a (pre @ b # post)" "sz \<le> MemoryBlock.size_bytes b"
  shows "tiles_from a (pre @ placed b sz nid @ post)"
  using assms by (auto simp: tiles_from_append placed_def)

lemma sum_placed:
  assumes "sz \<le> MemoryBlock.size_bytes b"
  shows "sum_list (map MemoryBlock.size_bytes (pre @ placed b sz nid @ post)) =
         sum_list (map MemoryBlock.size_bytes (pre @ b # post))"
  using assms by (simp add: placed_def)

lemma ids_placed:
  assumes "\<not> is_allocated b"
  shows "alloc_ids (pre @ b # post) = alloc_ids pre @ alloc_ids post"
    and "alloc_ids (pre @ placed b sz nid @ post) = alloc_ids pre @ nid # alloc_ids post"
  using assms by (simp_all add: alloc_ids_def placed_def)

subsection \<open>Coalescing\<close>

lemma coalesce_head:
  "coalesceBlocks (b # bs) \<noteq> [] \<and> is_allocated (hd (coalesceBlocks (b # bs))) = is_allocated b"
  by (induction "b # bs" arbitrary: b bs rule: coalesceBlocks.induct) auto

lemma naf_coalesce: "no_adjacent_free (coalesceBlocks bs)"
proof (induction bs rule: coalesceBlocks.induct)
  case (1 c n rest)
  show ?case
  proof (cases "\<not> is_allocated c \<and> \<not> is_allocated n")
    case True
    with 1 show ?thesis by simp
  next
    case False
    obtain h t where ht: "coalesceBlocks (n # rest) = h # t" "is_allocated h = is_allocated n"
      using coalesce_head [of n rest] by (cases "coalesceBlocks (n # rest)") auto
    with False 1 show ?thesis by auto
  qed
qed simp_all

lemma tiles_coalesce: "tiles_from a bs \<Longrightarrow> tiles_from a (coalesceBlocks bs)"
  by (induction bs arbitrary: a rule: coalesceBlocks.induct) (auto simp: add.assoc)

lemma sum_coalesce:
  "sum_list (map MemoryBlock.size_bytes (coalesceBlocks bs)) = sum_list (map MemoryBlock.size_bytes bs)"
  by (induction bs rule: coalesceBlocks.induct) auto

lemma ids_coalesce: "alloc_ids (coalesceBlocks bs) = alloc_ids bs"
  by (induction bs rule: coalesceBlocks.induct) (auto simp: alloc_ids_def)

subsection \<open>Releasing a block\<close>

lemma release_first_Cons:
  "release_first i (b # bs) =
     (if is_allocated b \<and> MemoryBlock.block_id b = i
      then (True, b\<lparr>is_allocated := False, MemoryBlock.block_id := -1\<rparr> # bs)
      else (fst (release_first i bs), b # snd (release_first i bs)))"
  by (simp add: split_def Let_def)

lemma release_first_found: "fst (release_first i bs) \<longleftrightarrow> i \<in> set (alloc_ids bs)"
  by (induction bs) (auto simp: release_first_Cons alloc_ids_def simp del: release_first.simps(2))

lemma release_first_absent: "i \<notin> set (alloc_ids bs) \<Longrightarrow> release_first i bs = (False, bs)"
proof (induction bs)
  case Nil
  then show ?case by simp
next
  case (Cons b bs)
  from Cons.prems have nb: "\<not> (is_allocated b \<and> MemoryBlock.block_id b = i)"
    and "i \<notin> set (alloc_ids bs)"
    by (auto simp: alloc_ids_def)
  from Cons.IH [OF this(2)] nb show ?case by simp
qed

lemma release_first_ids: "alloc_ids (snd (release_first i bs)) = remove1 i (alloc_ids bs)"
  by (induction bs) (simp_all add: release_first_Cons alloc_ids_def del: release_first.simps(2))

lemma release_first_tiles: "tiles_from a (snd (release_first i bs)) = tiles_from a bs"
  by (induction bs arbitrary: a) (simp_all add: release_first_Cons del: release_first.simps(2))

lemma release_first_sum:
  "sum_list (map MemoryBlock.size_bytes (snd (release_first i bs))) = sum_list (map MemoryBlock.size_bytes bs)"
  by (induction bs) (simp_all add: release_first_Cons del: release_first.simps(2))

subsection \<open>The invariant\<close>

lemma MemoryManager_new_inv: "mm_inv (MemoryManager_new arena)"
  by (simp add: mm_inv_def MemoryManager_new_def alloc_ids_def)

lemma allocate_inv:
  assumes "mm_inv s"
  shows "mm_inv (snd (MemoryManager_allocate s sz))"
proof -
  obtain bid s' where r: "MemoryManager_allocate s sz = (bid, s')"
    by (cases "MemoryManager_allocate s sz")
  from allocate_result [OF r] show ?thesis
  proof
    assume "blocks s' = blocks s \<and>
        MemoryManager.next_block_id s' = MemoryManager.next_block_id s \<and>
        MemoryManager.total_memory s' = MemoryManager.total_memory s"
    with assms show ?thesis by (simp add: r mm_inv_def)
  next
    assume "\<exists>pre b post. blocks s = pre @ b # post \<and> \<not> is_allocated b \<and>
           sz \<le> MemoryBlock.size_bytes b \<and>
           blocks s' = pre @ placed b sz (MemoryManager.next_block_id s) @ post \<and>
           MemoryManager.next_block_id s' = MemoryManager.next_block_id s + 1 \<and>
           MemoryManager.total_memory s' = MemoryManager.total_memory s"
    then obtain pre b post where bs: "blocks s = pre @ b # post"
      and b: "\<not> is_allocated b" "sz \<le> MemoryBlock.size_bytes b"
      and bs': "blocks s' = pre @ placed b sz (MemoryManager.next_block_id s) @ post"
      and nx: "MemoryManager.next_block_id s' = MemoryManager.next_block_id s + 1"
      and tm: "MemoryManager.total_memory s' = MemoryManager.total_memory s"
      by blast
    from assms have inv: "no_adjacent_free (pre @ b # post)" "tiles_from 0 (pre @ b # post)"
      "sum_list (map MemoryBlock.size_bytes (pre @ b # post)) = MemoryManager.total_memory s"
      "distinct (alloc_ids pre @ alloc_ids post)"
      "\<forall>k \<in> set (alloc_ids pre @ alloc_ids post). k < MemoryManager.next_block_id s"
      using ids_placed(1) [OF b(1), of pre post] by (simp_all add: mm_inv_def bs)
    have 1: "no_adjacent_free (blocks s')" unfolding bs' using inv(1) b(1) by (rule naf_placed)
    have 2: "tiles_from 0 (blocks s')" unfolding bs' using inv(2) b(2) by (rule tiles_placed)
    have 3: "sum_list (map MemoryBlock.size_bytes (blocks s')) = MemoryManager.total_memory s'"
      unfolding bs' tm using sum_placed [OF b(2), of pre _ post] inv(3) by simp
    have ids: "alloc_ids (blocks s') =
        alloc_ids pre @ MemoryManager.next_block_id s # alloc_ids post"
      unfolding bs' by (rule ids_placed(2) [OF b(1)])
    have 4: "distinct (alloc_ids (blocks s'))" unfolding ids using inv(4,5) by auto
    have 5: "\<forall>k \<in> set (alloc_ids (blocks s')). k < MemoryManager.next_block_id s'"
      unfolding ids nx using inv(5) by (auto dest: bspec)
    from 1 2 3 4 5 show ?thesis by (simp add: r mm_inv_def)
  qed
qed

lemma deallocate_unfold:
  "MemoryManager_deallocate s i =
     (if i \<in> set (alloc_ids (blocks s))
      then (True, s\<lparr>blocks := coalesceBlocks (snd (release_first i (blocks s)))\<rparr>)
      else (False, s))"
  using release_first_found [of i "blocks s"]
  by (simp add: MemoryManager_deallocate_def split_def)

lemma deallocate_inv:
  assumes "mm_inv s"
  shows "mm_inv (snd (MemoryManager_deallocate s i))"
proof (cases "i \<in> set (alloc_ids (blocks s))")
  case False
  with assms show ?thesis by (simp add: deallocate_unfold)
next
  case True
  let ?bs = "coalesceBlocks (snd (release_first i (blocks s)))"
  have ids: "alloc_ids ?bs = remove1 i (alloc_ids (blocks s))"
    by (simp add: ids_coalesce release_first_ids)
  have 1: "no_adjacent_free ?bs" by (rule naf_coalesce)
  have 2: "tiles_from 0 ?bs"
    using assms by (intro tiles_coalesce) (simp add: release_first_tiles mm_inv_def)
  have 3: "sum_list (map MemoryBlock.size_bytes ?bs) = MemoryManager.total_memory s"
    using assms by (simp add: sum_coalesce release_first_sum mm_inv_def)
  have 4: "distinct (alloc_ids ?bs)" unfolding ids using assms by (simp add: mm_inv_def)
  have 5: "\<forall>k \<in> set (alloc_ids ?bs). k < MemoryManager.next_block_id s"
    unfolding ids using assms set_remove1_subset [of i "alloc_ids (blocks s)"]
    by (auto simp: mm_inv_def)
  from True 1 2 3 4 5 show ?thesis by (simp add: deallocate_unfold mm_inv_def)
qed

lemma mm_step_inv: "mm_inv s \<Longrightarrow> mm_inv (mm_step s x)"
  by (cases x) (simp_all add: allocate_inv deallocate_inv, simp add: setStrategy_def mm_inv_def)

lemma mm_run_inv: "mm_inv s \<Longrightarrow> mm_inv (mm_run s ops)"
  unfolding mm_run_def by (induction ops arbitrary: s) (simp_all add: mm_step_inv)

lemma mm_step_total_memory:
  "MemoryManager.total_memory (mm_step s x) = MemoryManager.total_memory s"
proof (cases x)
  case (Malloc n)
  then show ?thesis by (simp add: allocate_unfold)
next
  case (Free i)
  then show ?thesis by (simp add: deallocate_unfold)
next
  case (SetStrategy st)
  then show ?thesis by (simp add: setStrategy_def)
qed

lemma mm_run_total_memory:
  "MemoryManager.total_memory (mm_run s ops) = MemoryManager.total_memory s"
  unfolding mm_run_def by (induction ops arbitrary: s) (simp_all add: mm_step_total_memory)

text \<open>
  Claim C7: for every sequence of \<^verbatim>\<open>allocate\<close>, \<^verbatim>\<open>deallocate\<close> and
  \<^verbatim>\<open>setStrategy\<close> calls on a fresh allocator, the state reached has no two adjacent
  free blocks (so in particular the state right after any \<^verbatim>\<open>deallocate\<close>, whatever
  it returned), the blocks tile the addresses from 0 on without gap or overlap, and their
  sizes sum to \<^verbatim>\<open>total_memory\<close>, which is the size the allocator was built with.
\<close>

theorem C7_coalesced_cover:
  "no_adjacent_free (blocks (mm_run (MemoryManager_new arena) ops)) \<and>
   no_adjacent_free (blocks (snd (MemoryManager_deallocate (mm_run (MemoryManager_new arena) ops) i))) \<and>
   tiles_from 0 (blocks (mm_run (MemoryManager_new arena) ops)) \<and>
   sum_list (map MemoryBlock.size_bytes (blocks (mm_run (MemoryManager_new arena) ops)))
     = MemoryManager.total_memory (mm_run (MemoryManager_new arena) ops) \<and>
   MemoryManager.total_memory (mm_run (MemoryManager_new arena) ops) = arena"
proof -
  have inv: "mm_inv (mm_run (MemoryManager_new arena) ops)"
    by (rule mm_run_inv [OF MemoryManager_new_inv])
  from deallocate_inv [OF inv, of i] inv show ?thesis
    by (simp add: mm_inv_def mm_run_total_memory) (simp add: MemoryManager_new_def)
qed

subsection \<open>Ids that were freed\<close>

lemma allocate_retired_mm:
  assumes "mm_retired s i"
  shows "mm_retired (snd (MemoryManager_allocate s sz)) i"
proof -
  obtain bid s' where r: "MemoryManager_allocate s sz = (bid, s')"
    by (cases "MemoryManager_allocate s sz")
  have inv': "mm_inv s'" using allocate_inv [of s sz] assms by (simp add: r mm_retired_def)
  from allocate_result [OF r] show ?thesis
  proof
    assume "blocks s' = blocks s \<and>
        MemoryManager.next_block_id s' = MemoryManager.next_block_id s \<and>
        MemoryManager.total_memory s' = MemoryManager.total_memory s"
    with assms inv' show ?thesis by (simp add: r mm_retired_def)
  next
    assume "\<exists>pre b post. blocks s = pre @ b # post \<and> \<not> is_allocated b \<and>
           sz \<le> MemoryBlock.size_bytes b \<and>
           blocks s' = pre @ placed b sz (MemoryManager.next_block_id s) @ post \<and>
           MemoryManager.next_block_id s' = MemoryManager.next_block_id s + 1 \<and>
           MemoryManager.total_memory s' = MemoryManager.total_memory s"
    then obtain pre b post where bs: "blocks s = pre @ b # post"
      and b: "\<not> is_allocated b"
      and bs': "blocks s' = pre @ placed b sz (MemoryManager.next_block_id s) @ post"
      and nx: "MemoryManager.next_block_id s' = MemoryManager.next_block_id s + 1"
      by blast
    have "alloc_ids (blocks s) = alloc_ids pre @ alloc_ids post"
      unfolding bs by (rule ids_placed(1) [OF b])
    moreover have "alloc_ids (blocks s') =
        alloc_ids pre @ MemoryManager.next_block_id s # alloc_ids post"
      unfolding bs' by (rule ids_placed(2) [OF b])
    ultimately show ?thesis using assms inv' nx by (auto simp: r mm_retired_def)
  qed
qed

lemma deallocate_retired_mm:
  assumes "mm_retired s i"
  shows "mm_retired (snd (MemoryManager_deallocate s j)) i"
proof -
  have inv': "mm_inv (snd (MemoryManager_deallocate s j))"
    using deallocate_inv [of s j] assms by (simp add: mm_retired_def)
  have "set (remove1 j (alloc_ids (blocks s))) \<subseteq> set (alloc_ids (blocks s))"
    by (rule set_remove1_subset)
  with assms have "i \<notin> set (remove1 j (alloc_ids (blocks s)))" by (auto simp: mm_retired_def)
  with inv' assms show ?thesis
    by (simp add: mm_retired_def deallocate_unfold ids_coalesce release_first_ids)
qed

lemma mm_run_retired: "mm_retired s i \<Longrightarrow> mm_retired (mm_run s ops) i"
  unfolding mm_run_def
proof (induction ops arbitrary: s)
  case Nil
  then show ?case by simp
next
  case (Cons x ops)
  have "mm_retired (mm_step s x) i"
  proof (cases x)
    case (Malloc n)
    with Cons.prems show ?thesis by (simp add: allocate_retired_mm)
  next
    case (Free j)
    with Cons.prems show ?thesis by (simp add: deallocate_retired_mm)
  next
    case (SetStrategy st)
    with Cons.prems show ?thesis by (simp add: setStrategy_def mm_retired_def mm_inv_def)
  qed
  from Cons.IH [OF this] show ?case by simp
qed

lemma deallocate_True_retired_mm:
  assumes "mm_inv s" and "fst (MemoryManager_deallocate s i)"
  shows "mm_retired (snd (MemoryManager_deallocate s i)) i"
proof -
  from assms(2) have mem: "i \<in> set (alloc_ids (blocks s))"
    by (simp add: deallocate_unfold split: if_splits)
  with assms(1) have lt: "i < MemoryManager.next_block_id s" by (simp add: mm_inv_def)
  have "distinct (alloc_ids (blocks s))" using assms(1) by (simp add: mm_inv_def)
  then have "i \<notin> set (remove1 i (alloc_ids (blocks s)))" by simp
  with deallocate_inv [OF assms(1), of i] mem lt show ?thesis
    by (simp add: mm_retired_def deallocate_unfold ids_coalesce release_first_ids)
qed

lemma retired_deallocate_False_mm:
  "mm_retired s i \<Longrightarrow> MemoryManager_deallocate s i = (False, s)"
  by (simp add: mm_retired_def deallocate_unfold)

section \<open>Properties of the buddy allocator\<close>

subsection \<open>The split tree of the first allocation\<close>

text \<open>
  Claim C2, as stated: on a fresh allocator with 1024 bytes and blocks of at least 16, the
  first \<^verbatim>\<open>allocate(16)\<close> returns the block at address 0.  It does not: at every split
  the upper half is pushed last and becomes the head, so the block handed out is the
  topmost one.
\<close>

theorem C2_address_counterexample:
  "buddy_address_of (BuddyAllocator_allocate (BuddyAllocator_new 1024 16) 16) \<noteq> Some 0"
  by code_simp

text \<open>
  Claim C2, amended: the first \<^verbatim>\<open>allocate(16)\<close> on that allocator performs exactly six
  splits and returns id 1 at address 1008, leaving one free block per order 0 to 5 (at 992,
  960, 896, 768, 512 and 0); freeing the block performs exactly six merges and restores the
  free lists to the single block of order 6 at address 0.  The lists are LIFO: after three
  allocations of 16 bytes and the release of the first one, the freed block at 1008 is the
  head of the list of order 0, in front of the split-produced block at 960, and the next
  allocation takes it.
\<close>

theorem C2_split_tree:
  "(case BuddyAllocator_allocate (BuddyAllocator_new 1024 16) 16 of
      None \<Rightarrow> False
    | Some (bid, s1) \<Rightarrow>
        bid = 1 \<and> splits s1 = 6 \<and>
        map_option address (allocated_blocks s1 bid) = Some 1008 \<and>
        free_addresses s1 = [[992], [960], [896], [768], [512], [0], []] \<and>
        (case BuddyAllocator_deallocate s1 bid of
           (ok, s2) \<Rightarrow>
             ok \<and> merges s2 = 6 \<and>
             free_lists s2 = free_lists (BuddyAllocator_new 1024 16) \<and>
             free_lists s2 = [[], [], [], [], [], [], [BuddyBlock_new 0 1024]]))
   \<and> (case buddy_run (BuddyAllocator_new 1024 16)
              [Allocate 16, Allocate 16, Allocate 16, Deallocate 1] of
        None \<Rightarrow> False
      | Some s \<Rightarrow>
          free_addresses s = [[1008, 960], [], [896], [768], [512], [0], []] \<and>
          buddy_address_of (BuddyAllocator_allocate s 16) = Some 1008)"
  by code_simp

subsection \<open>What splitting and merging leave alone\<close>

lemma same_ids_refl: "same_ids s s"
  by (simp add: same_ids_def)

lemma same_ids_trans: "same_ids s s1 \<Longrightarrow> same_ids s1 s2 \<Longrightarrow> same_ids s s2"
  by (simp add: same_ids_def)

lemma same_ids_lists: "same_ids s (s\<lparr>free_lists := fl, splits := n\<rparr>)"
  "same_ids s (s\<lparr>free_lists := fl, merges := m\<rparr>)"
  "same_ids s (s\<lparr>free_lists := fl\<rparr>)"
  by (simp_all add: same_ids_def)

lemma splitBlock_same_ids: "same_ids s (snd (BuddyAllocator_splitBlock s ord))"
proof (induction s ord rule: BuddyAllocator_splitBlock.induct)
  case (1 s ord)
  show ?case
  proof (cases "ord \<ge> max_order s")
    case True
    then show ?thesis by (subst BuddyAllocator_splitBlock.simps) (simp add: same_ids_refl)
  next
    case False
    define r where "r = (if free_lists s ! nat (ord + 1) = []
                         then BuddyAllocator_splitBlock s (ord + 1) else (True, s))"
    obtain ok s1 where r: "r = (ok, s1)" by (cases r)
    have s1: "same_ids s s1"
      using "1.IH" [OF False] r unfolding r_def by (auto simp: same_ids_refl split: if_splits)
    have "same_ids s1 (snd (BuddyAllocator_splitBlock s ord))"
      apply (subst BuddyAllocator_splitBlock.simps)
      unfolding r_def [symmetric] using False by (simp add: r Let_def same_ids_def)
    with s1 show ?thesis by (rule same_ids_trans)
  qed
qed

lemma removeFromFreeList_same_ids: "same_ids s (snd (removeFromFreeList s ord addr))"
  by (simp add: removeFromFreeList_def same_ids_def split: prod.splits)

lemma mergeBlocks_same_ids: "same_ids s (snd (mergeBlocks s addr ord))"
proof (induction s addr ord rule: mergeBlocks.induct)
  case (1 s addr ord)
  show ?case
  proof (cases "ord \<ge> max_order s")
    case True
    then show ?thesis by (subst mergeBlocks.simps) (simp add: same_ids_refl)
  next
    case False
    define ba where "ba = getBuddyAddress addr (getBlockSize s ord)"
    obtain buddy s1 where r: "removeFromFreeList s ord ba = (buddy, s1)"
      by (cases "removeFromFreeList s ord ba")
    have s1: "same_ids s s1" using removeFromFreeList_same_ids [of s ord ba] r by simp
    show ?thesis
    proof (cases buddy)
      case None
      have "mergeBlocks s addr ord = (False, s1)"
        by (subst mergeBlocks.simps) (simp add: False Let_def r [unfolded ba_def] None)
      with s1 show ?thesis by simp
    next
      case (Some b)
      define s2 where "s2 = snd (removeFromFreeList s1 ord addr)"
      define ma where "ma = (if addr < ba then addr else ba)"
      define s3 where "s3 = s2\<lparr>free_lists := (free_lists s2)
          [nat (ord + 1) := BuddyBlock_new ma (getBlockSize s ord * 2) # free_lists s2 ! nat (ord + 1)],
          merges := merges s2 + 1\<rparr>"
      have eq: "mergeBlocks s addr ord = (True, snd (mergeBlocks s3 ma (ord + 1)))"
        by (subst mergeBlocks.simps)
           (simp add: False Let_def r [unfolded ba_def] Some s2_def s3_def ma_def ba_def)
      have ih: "same_ids s3 (snd (mergeBlocks s3 ma (ord + 1)))"
        unfolding s3_def s2_def ma_def ba_def
        by (rule "1.IH" [OF False refl refl refl r [unfolded ba_def, symmetric] _ refl refl refl refl refl])
           (simp add: Some)
      have "same_ids s1 s2" unfolding s2_def by (rule removeFromFreeList_same_ids)
      moreover have "same_ids s2 s3" unfolding s3_def by (rule same_ids_lists)
      ultimately show ?thesis using s1 ih eq by (auto intro: same_ids_trans)
    qed
  qed
qed

lemma doubling_loop_returns: "0 < pw \<Longrightarrow> \<exists>r. doubling_loop pw sz = Some r"
proof (induction "sz - pw" arbitrary: pw rule: less_induct)
  case less
  show ?case
  proof (cases "pw < sz")
    case True
    then have "sz - pw * 2 < sz - pw" using less.prems by simp
    from less.hyps [OF this] less.prems obtain r where "doubling_loop (pw * 2) sz = Some r" by auto
    with True show ?thesis by (subst doubling_loop.simps) simp
  next
    case False
    then show ?thesis by (subst doubling_loop.simps) simp
  qed
qed

subsection \<open>Ids that were freed\<close>

text \<open>
  Every way out of \<^verbatim>\<open>allocate\<close>: a failure changes a state with the same ids in the
  failure counter only, a success adds the record under the id \<^verbatim>\<open>next_block_id\<close> and
  increments that counter.
\<close>

lemma allocate_preserves:
  assumes al: "BuddyAllocator_allocate s n = Some (bid, s')"
    and keep: "\<And>t f. same_ids s t \<Longrightarrow> P (t\<lparr>failed_allocations := f\<rparr>)"
    and fresh: "\<And>t fl si sf rec. same_ids s t \<Longrightarrow>
        P (t\<lparr>free_lists := fl,
              BuddyAllocator.next_block_id := BuddyAllocator.next_block_id t + 1,
              successful_allocations := si,
              total_internal_fragmentation := sf,
              allocated_blocks := (allocated_blocks t)(BuddyAllocator.next_block_id t \<mapsto> rec)\<rparr>)"
  shows "P s'"
proof -
  let ?s0 = "s\<lparr>total_allocations := total_allocations s + 1\<rparr>"
  have s0: "same_ids s ?s0" by (simp add: same_ids_def)
  show ?thesis
  proof (cases "n = 0 \<or> n > BuddyAllocator.total_memory s")
    case True
    with al keep [OF s0] show ?thesis
      by (auto simp: BuddyAllocator_allocate_def Let_def split: if_splits)
  next
    case False
    with al obtain actual where a: "nextPowerOfTwo ?s0 n = Some actual"
      by (auto simp: BuddyAllocator_allocate_def Let_def split: option.splits)
    define ord where "ord = getOrder ?s0 actual"
    show ?thesis
    proof (cases "free_lists ?s0 ! nat ord = []")
      case True
      obtain ok s1 where sp: "BuddyAllocator_splitBlock ?s0 ord = (ok, s1)"
        by (cases "BuddyAllocator_splitBlock ?s0 ord")
      have "same_ids ?s0 s1" using splitBlock_same_ids [of ?s0 ord] sp by simp
      with s0 have s1: "same_ids s s1" by (rule same_ids_trans)
      show ?thesis
        using al False a True sp keep [OF s1] fresh [OF s1] unfolding ord_def
        by (auto simp: BuddyAllocator_allocate_def Let_def split: if_splits)
    next
      case nonempty: False
      show ?thesis
        using al False a nonempty keep [OF s0] fresh [OF s0] unfolding ord_def
        by (auto simp: BuddyAllocator_allocate_def Let_def split: if_splits)
    qed
  qed
qed

lemma allocate_retired:
  assumes "retired s i" "BuddyAllocator_allocate s n = Some (bid, s')"
  shows "retired s' i"
  using assms(2)
proof (rule allocate_preserves)
  fix t f assume "same_ids s t"
  with assms(1) show "retired (t\<lparr>failed_allocations := f\<rparr>) i"
    by (simp add: retired_def ids_below_def same_ids_def)
next
  fix t fl si sf rec assume "same_ids s t"
  with assms(1) have "retired t i" by (simp add: retired_def ids_below_def same_ids_def)
  then show "retired (t\<lparr>free_lists := fl,
              BuddyAllocator.next_block_id := BuddyAllocator.next_block_id t + 1,
              successful_allocations := si,
              total_internal_fragmentation := sf,
              allocated_blocks := (allocated_blocks t)(BuddyAllocator.next_block_id t \<mapsto> rec)\<rparr>) i"
    by (auto simp: retired_def ids_below_def split: if_splits)
qed

lemma allocate_min_block_size:
  assumes "BuddyAllocator_allocate s n = Some (bid, s')"
  shows "min_block_size s' = min_block_size s"
  using assms by (rule allocate_preserves) (simp_all add: same_ids_def)

lemma deallocate_ids_below:
  assumes "ids_below s"
  shows "ids_below (snd (BuddyAllocator_deallocate s j))"
    and "BuddyAllocator.next_block_id (snd (BuddyAllocator_deallocate s j)) = BuddyAllocator.next_block_id s"
    and "allocated_blocks (snd (BuddyAllocator_deallocate s j)) = (allocated_blocks s)(j := None)"
proof -
  have *: "ids_below (snd (BuddyAllocator_deallocate s j)) \<and>
    BuddyAllocator.next_block_id (snd (BuddyAllocator_deallocate s j)) = BuddyAllocator.next_block_id s \<and>
    allocated_blocks (snd (BuddyAllocator_deallocate s j)) = (allocated_blocks s)(j := None)"
  proof (cases "allocated_blocks s j")
    case None
    with assms show ?thesis by (auto simp: BuddyAllocator_deallocate_def)
  next
    case (Some rec)
    define s1 where "s1 = s\<lparr>free_lists := (free_lists s)
                         [nat (order rec) := BuddyBlock_new (address rec) (actual_size rec) # free_lists s ! nat (order rec)],
                     total_deallocations := total_deallocations s + 1,
                     total_internal_fragmentation :=
                       total_internal_fragmentation s - (actual_size rec - requested_size rec),
                     allocated_blocks := (allocated_blocks s)(j := None)\<rparr>"
    have eq: "snd (BuddyAllocator_deallocate s j) = snd (mergeBlocks s1 (address rec) (order rec))"
      by (simp add: BuddyAllocator_deallocate_def Some Let_def s1_def)
    have "same_ids s1 (snd (mergeBlocks s1 (address rec) (order rec)))"
      by (rule mergeBlocks_same_ids)
    moreover have "ids_below s1" "BuddyAllocator.next_block_id s1 = BuddyAllocator.next_block_id s"
        "allocated_blocks s1 = (allocated_blocks s)(j := None)"
      using assms by (auto simp: s1_def ids_below_def)
    ultimately show ?thesis unfolding eq by (auto simp: same_ids_def ids_below_def)
  qed
  from * show "ids_below (snd (BuddyAllocator_deallocate s j))"
    and "BuddyAllocator.next_block_id (snd (BuddyAllocator_deallocate s j)) = BuddyAllocator.next_block_id s"
    and "allocated_blocks (snd (BuddyAllocator_deallocate s j)) = (allocated_blocks s)(j := None)"
    by simp_all
qed

lemma deallocate_retired:
  "retired s i \<Longrightarrow> retired (snd (BuddyAllocator_deallocate s j)) i"
  using deallocate_ids_below [of s j] by (simp add: retired_def)

lemma deallocate_True_retired:
  assumes "ids_below s" "BuddyAllocator_deallocate s i = (True, s')"
  shows "retired s' i"
proof -
  from assms(2) have "allocated_blocks s i \<noteq> None"
    by (auto simp: BuddyAllocator_deallocate_def split: option.splits)
  then have "i < BuddyAllocator.next_block_id s" using assms(1) by (auto simp: ids_below_def)
  with deallocate_ids_below [OF assms(1), of i] assms(2) show ?thesis
    by (simp add: retired_def)
qed

lemma buddy_run_retired:
  "retired s i \<Longrightarrow> buddy_run s ops = Some s' \<Longrightarrow> retired s' i"
proof (induction ops arbitrary: s)
  case Nil
  then show ?case by simp
next
  case (Cons x ops)
  from Cons.prems(2) obtain s1 where s1: "buddy_step s x = Some s1" "buddy_run s1 ops = Some s'"
    by (auto split: option.splits)
  have "retired s1 i"
  proof (cases x)
    case (Allocate n)
    with s1(1) obtain bid where "BuddyAllocator_allocate s n = Some (bid, s1)" by auto
    from allocate_retired [OF Cons.prems(1) this] show ?thesis .
  next
    case (Deallocate j)
    with s1(1) deallocate_retired [OF Cons.prems(1), of j] show ?thesis by auto
  qed
  from Cons.IH [OF this s1(2)] show ?case .
qed


lemma retired_deallocate_False: "retired s i \<Longrightarrow> BuddyAllocator_deallocate s i = (False, s)"
  by (simp add: retired_def BuddyAllocator_deallocate_def)

lemma deallocate_min_block_size:
  "min_block_size (snd (BuddyAllocator_deallocate s j)) = min_block_size s"
proof (cases "allocated_blocks s j")
  case None
  then show ?thesis by (simp add: BuddyAllocator_deallocate_def)
next
  case (Some rec)
  show ?thesis
    using mergeBlocks_same_ids
    by (simp add: BuddyAllocator_deallocate_def Some Let_def same_ids_def)
qed

subsection \<open>Every call returns\<close>

lemma nextPowerOfTwo_returns:
  "0 < min_block_size s \<Longrightarrow> \<exists>a. nextPowerOfTwo s n = Some a"
  using doubling_loop_returns [of "min_block_size s" n] by (simp add: nextPowerOfTwo_def)

lemma allocate_returns:
  assumes "0 < min_block_size s"
  shows "\<exists>r. BuddyAllocator_allocate s n = Some r"
proof -
  let ?s0 = "s\<lparr>total_allocations := total_allocations s + 1\<rparr>"
  from nextPowerOfTwo_returns [of ?s0 n] assms
  obtain a where "nextPowerOfTwo ?s0 n = Some a" by auto
  then show ?thesis
    by (simp add: BuddyAllocator_allocate_def Let_def split: prod.splits)
qed

lemma buddy_run_returns:
  "0 < min_block_size s \<Longrightarrow> \<exists>s'. buddy_run s ops = Some s'"
proof (induction ops arbitrary: s)
  case Nil
  then show ?case by simp
next
  case (Cons x ops)
  show ?case
  proof (cases x)
    case (Allocate n)
    from allocate_returns [OF Cons.prems, of n] obtain bid s1
      where a: "BuddyAllocator_allocate s n = Some (bid, s1)" by auto
    from allocate_min_block_size [OF a] Cons.prems have "0 < min_block_size s1" by simp
    from Cons.IH [OF this] a Allocate show ?thesis by simp
  next
    case (Deallocate j)
    have "0 < min_block_size (snd (BuddyAllocator_deallocate s j))"
      using deallocate_min_block_size [of s j] Cons.prems by simp
    from Cons.IH [OF this] Deallocate show ?thesis by simp
  qed
qed

lemma isPowerOfTwo_pos: "isPowerOfTwo n \<Longrightarrow> 0 < n"
  by (simp add: isPowerOfTwo_def)

lemma BuddyAllocator_new_min: "0 < min_block_size (BuddyAllocator_new m n)"
  by (simp add: BuddyAllocator_new_def Let_def isPowerOfTwo_pos)

lemma BuddyAllocator_new_retired: "retired (BuddyAllocator_new m n) 0"
  by (simp add: BuddyAllocator_new_def Let_def retired_def ids_below_def)

text \<open>From a fresh allocator every sequence of calls returns.\<close>

lemma buddy_run_new_returns: "\<exists>s. buddy_run (BuddyAllocator_new m n) ops = Some s"
  by (rule buddy_run_returns [OF BuddyAllocator_new_min])

section \<open>Freeing a block twice\<close>

lemma MemoryManager_new_retired_free:
  assumes "fst (MemoryManager_deallocate (mm_run (MemoryManager_new arena) ops1) i)"
  shows "mm_retired (snd (MemoryManager_deallocate (mm_run (MemoryManager_new arena) ops1) i)) i"
  using mm_run_inv [OF MemoryManager_new_inv] assms by (rule deallocate_True_retired_mm)

lemma buddy_run_ids_below:
  assumes "buddy_run (BuddyAllocator_new m n) ops = Some s"
  shows "ids_below s"
  using buddy_run_retired [OF BuddyAllocator_new_retired assms] by (simp add: retired_def)

text \<open>
  Claim C10: in both allocators the second \<^verbatim>\<open>deallocate\<close> of an id fails and changes
  nothing.  Let \<^verbatim>\<open>deallocate(i)\<close> return \<^verbatim>\<open>true\<close> in a state reached from a fresh
  allocator by any sequence of calls; then after any further sequence of calls
  \<^verbatim>\<open>deallocate(i)\<close> returns \<^verbatim>\<open>false\<close> and the state is the one before the call.
  (Ids are issued from \<^verbatim>\<open>next_block_id\<close>, which only grows, so the id is not issued
  again; lemma \<open>buddy_run_new_returns\<close> shows that the runs of the buddy allocator exist.)
\<close>

theorem C10_double_free:
  "(fst (MemoryManager_deallocate (mm_run (MemoryManager_new arena) ops1) i) \<longrightarrow>
      MemoryManager_deallocate
        (mm_run (snd (MemoryManager_deallocate (mm_run (MemoryManager_new arena) ops1) i)) ops2) i
      = (False,
         mm_run (snd (MemoryManager_deallocate (mm_run (MemoryManager_new arena) ops1) i)) ops2))
   \<and> (buddy_run (BuddyAllocator_new m n) bops1 = Some s1 \<longrightarrow>
        fst (BuddyAllocator_deallocate s1 j) \<longrightarrow>
        buddy_run (snd (BuddyAllocator_deallocate s1 j)) bops2 = Some s3 \<longrightarrow>
        BuddyAllocator_deallocate s3 j = (False, s3))"
proof (intro conjI impI)
  assume "fst (MemoryManager_deallocate (mm_run (MemoryManager_new arena) ops1) i)"
  then have "mm_retired (snd (MemoryManager_deallocate (mm_run (MemoryManager_new arena) ops1) i)) i"
    by (rule MemoryManager_new_retired_free)
  then have "mm_retired
      (mm_run (snd (MemoryManager_deallocate (mm_run (MemoryManager_new arena) ops1) i)) ops2) i"
    by (rule mm_run_retired)
  then show "MemoryManager_deallocate
        (mm_run (snd (MemoryManager_deallocate (mm_run (MemoryManager_new arena) ops1) i)) ops2) i
      = (False,
         mm_run (snd (MemoryManager_deallocate (mm_run (MemoryManager_new arena) ops1) i)) ops2)"
    by (rule retired_deallocate_False_mm)
next
  assume r1: "buddy_run (BuddyAllocator_new m n) bops1 = Some s1"
    and d: "fst (BuddyAllocator_deallocate s1 j)"
    and r2: "buddy_run (snd (BuddyAllocator_deallocate s1 j)) bops2 = Some s3"
  have "ids_below s1" using r1 by (rule buddy_run_ids_below)
  moreover have "BuddyAllocator_deallocate s1 j = (True, snd (BuddyAllocator_deallocate s1 j))"
    using d by (cases "BuddyAllocator_deallocate s1 j") simp
  ultimately have "retired (snd (BuddyAllocator_deallocate s1 j)) j"
    by (rule deallocate_True_retired)
  then have "retired s3 j" using r2 by (rule buddy_run_retired)
  then show "BuddyAllocator_deallocate s3 j = (False, s3)"
    by (rule retired_deallocate_False)
qed

theorem C10_double_free_witness:
  "fst (MemoryManager_deallocate (mm_run (MemoryManager_new 1024) [Malloc 100, Malloc 200]) 1)
   \<and> MemoryManager_deallocate
        (mm_run (snd (MemoryManager_deallocate
                        (mm_run (MemoryManager_new 1024) [Malloc 100, Malloc 200]) 1))
           [Malloc 50, Free 2]) 1
      = (False,
         mm_run (snd (MemoryManager_deallocate
                        (mm_run (MemoryManager_new 1024) [Malloc 100, Malloc 200]) 1))
           [Malloc 50, Free 2])
   \<and> fst (BuddyAllocator_deallocate
            (the (buddy_run (BuddyAllocator_new 1024 16) [Allocate 16, Allocate 32])) 1)
   \<and> fst (BuddyAllocator_deallocate
            (the (buddy_run
                    (snd (BuddyAllocator_deallocate
                            (the (buddy_run (BuddyAllocator_new 1024 16) [Allocate 16, Allocate 32])) 1))
                    [Allocate 16, Deallocate 2])) 1) = False"
proof -
  let ?s1 = "the (buddy_run (BuddyAllocator_new 1024 16) [Allocate 16, Allocate 32])"
  let ?s2 = "snd (BuddyAllocator_deallocate ?s1 1)"
  let ?s3 = "the (buddy_run ?s2 [Allocate 16, Deallocate 2])"
  have a: "fst (MemoryManager_deallocate (mm_run (MemoryManager_new 1024) [Malloc 100, Malloc 200]) 1)"
    by code_simp
  have r1: "buddy_run (BuddyAllocator_new 1024 16) [Allocate 16, Allocate 32] = Some ?s1"
    using buddy_run_new_returns [of 1024 16 "[Allocate 16, Allocate 32]"] by auto
  have d: "fst (BuddyAllocator_deallocate ?s1 1)"
    by code_simp
  have "0 < min_block_size ?s2"
    by code_simp
  from buddy_run_returns [OF this, of "[Allocate 16, Deallocate 2]"]
  have r2: "buddy_run ?s2 [Allocate 16, Deallocate 2] = Some ?s3" by auto
  from C10_double_free [of 1024 "[Malloc 100, Malloc 200]" 1 "[Malloc 50, Free 2]"
      1024 16 "[Allocate 16, Allocate 32]" ?s1 1 "[Allocate 16, Deallocate 2]" ?s3]
    a r1 d r2
  show ?thesis by simp
qed

section \<open>Properties of the virtual memory simulator\<close>

subsection \<open>Counters\<close>

lemma evictPage_counters:
  "page_hits (snd (evictPage s p)) = page_hits s"
  "page_faults (snd (evictPage s p)) = page_faults s"
  "total_accesses (snd (evictPage s p)) = total_accesses s"
  "virtual_memory_size (snd (evictPage s p)) = virtual_memory_size s"
  by (simp_all add: evictPage_def Let_def)

lemma loadPage_counters:
  "page_hits (loadPage s p f) = page_hits s"
  "page_faults (loadPage s p f) = page_faults s"
  "total_accesses (loadPage s p f) = total_accesses s"
  "virtual_memory_size (loadPage s p f) = virtual_memory_size s"
  by (simp_all add: loadPage_def Let_def)

lemma handlePageFault_counters:
  "page_hits (handlePageFault s p) = page_hits s"
  "page_faults (handlePageFault s p) = page_faults s"
  "total_accesses (handlePageFault s p) = total_accesses s"
  "virtual_memory_size (handlePageFault s p) = virtual_memory_size s"
  by (simp_all add: handlePageFault_def Let_def loadPage_counters split: prod.split)
     (metis evictPage_counters snd_conv)+

text \<open>
  One call: the access counter always grows by one, the sum of hits and faults only when
  the address is in range.
\<close>

lemma translateAddress_counters:
  "virtual_memory_size (snd (translateAddress s va)) = virtual_memory_size s"
  "total_accesses (snd (translateAddress s va)) = total_accesses s + 1"
  "page_hits (snd (translateAddress s va)) + page_faults (snd (translateAddress s va)) =
     page_hits s + page_faults s + (if va \<ge> virtual_memory_size s then 0 else 1)"
  by (simp_all add: translateAddress_def Let_def handlePageFault_counters)

lemma translate_all_counters:
  "virtual_memory_size (translate_all s vas) = virtual_memory_size s \<and>
   page_hits (translate_all s vas) + page_faults (translate_all s vas)
     + int (length (filter (\<lambda>va. va \<ge> virtual_memory_size s) vas))
     - total_accesses (translate_all s vas)
   = page_hits s + page_faults s - total_accesses s"
proof (induction vas arbitrary: s)
  case Nil
  show ?case by (simp add: translate_all_def)
next
  case (Cons va vas)
  have step: "translate_all s (va # vas) = translate_all (snd (translateAddress s va)) vas"
    by (simp add: translate_all_def)
  show ?case
    unfolding step using Cons.IH [of "snd (translateAddress s va)"]
    by (auto simp: translateAddress_counters)
qed

text \<open>
  Claim C5, as stated: \<open>page_hits + page_faults = total_accesses\<close> after every call, also
  for addresses at or beyond \<^verbatim>\<open>virtual_memory_size\<close>.  One call with the address 16 on a
  simulator of 16 bytes refutes it: \<^verbatim>\<open>total_accesses\<close> is incremented before the range
  check, \<^verbatim>\<open>page_hits\<close> and \<^verbatim>\<open>page_faults\<close> after it.
\<close>

theorem C5_out_of_range_counterexample:
  "page_hits (translate_all (VirtualMemorySimulator_new 16 8 4 ''fifo'') [16])
     + page_faults (translate_all (VirtualMemorySimulator_new 16 8 4 ''fifo'') [16])
   \<noteq> total_accesses (translate_all (VirtualMemorySimulator_new 16 8 4 ''fifo'') [16])"
  by code_simp

text \<open>
  Claim C5, amended: after every sequence of \<^verbatim>\<open>translateAddress\<close> calls on a freshly
  constructed simulator, \<open>page_hits + page_faults\<close> plus the number of calls whose address
  was at or beyond \<^verbatim>\<open>virtual_memory_size\<close> equals \<^verbatim>\<open>total_accesses\<close>; so the two
  sides of the claimed equation agree exactly when every address was in range.
\<close>

theorem C5_hits_faults_accesses:
  assumes "0 < pg_size" and "pg_size dvd vm_size"
  shows "page_hits (translate_all (VirtualMemorySimulator_new vm_size pm_size pg_size pol) vas)
           + page_faults (translate_all (VirtualMemorySimulator_new vm_size pm_size pg_size pol) vas)
           + int (length (filter (\<lambda>va. va \<ge> vm_size) vas))
         = total_accesses (translate_all (VirtualMemorySimulator_new vm_size pm_size pg_size pol) vas)
       \<and> (page_hits (translate_all (VirtualMemorySimulator_new vm_size pm_size pg_size pol) vas)
           + page_faults (translate_all (VirtualMemorySimulator_new vm_size pm_size pg_size pol) vas)
         = total_accesses (translate_all (VirtualMemorySimulator_new vm_size pm_size pg_size pol) vas)
          \<longleftrightarrow> (\<forall>va \<in> set vas. va < vm_size))"
proof -
  let ?s0 = "VirtualMemorySimulator_new vm_size pm_size pg_size pol"
  have init: "virtual_memory_size ?s0 = vm_size" "page_hits ?s0 = 0" "page_faults ?s0 = 0"
    "total_accesses ?s0 = 0"
    by (simp_all add: VirtualMemorySimulator_new_def Let_def)
  have eq: "page_hits (translate_all ?s0 vas) + page_faults (translate_all ?s0 vas)
           + int (length (filter (\<lambda>va. va \<ge> vm_size) vas))
         = total_accesses (translate_all ?s0 vas)"
    using translate_all_counters [of ?s0 vas] by (simp add: init)
  have "length (filter (\<lambda>va. va \<ge> vm_size) vas) = 0 \<longleftrightarrow> (\<forall>va \<in> set vas. va < vm_size)"
    by (auto simp: filter_empty_conv)
  with eq show ?thesis by auto
qed

theorem C5_hits_faults_accesses_witness:
  "(0::nat) < 4 \<and> (4::nat) dvd 16 \<and>
   page_hits (translate_all (VirtualMemorySimulator_new 16 8 4 ''lru'') [0, 4, 0, 16, 8, 99])
     + page_faults (translate_all (VirtualMemorySimulator_new 16 8 4 ''lru'') [0, 4, 0, 16, 8, 99])
     + 2
   = total_accesses (translate_all (VirtualMemorySimulator_new 16 8 4 ''lru'') [0, 4, 0, 16, 8, 99])"
  using C5_hits_faults_accesses [of 4 16 8 "''lru''" "[0, 4, 0, 16, 8, 99]"]
  by simp

subsection \<open>The dirty bit\<close>

lemmas clean_update = ball_update [where P = "\<lambda>p. \<not> dirty p"]

lemmas ftp_update = ball_update [where P = "\<lambda>x. x = -1 \<or> (0 \<le> x \<and> nat x < n)" for n :: nat]

lemma victim_fold_range:
  assumes "\<forall>x \<in> set (frame_to_page s). x = -1 \<or> (0 \<le> x \<and> nat x < n)"
    and "set is \<subseteq> {..< length (frame_to_page s)}"
    and "snd acc = -1 \<or> (0 \<le> snd acc \<and> nat (snd acc) < n)"
  shows "snd (foldl (victim_step key s) acc is) = -1 \<or>
         (0 \<le> snd (foldl (victim_step key s) acc is) \<and>
          nat (snd (foldl (victim_step key s) acc is)) < n)"
  using assms(2,3)
proof (induction "is" arbitrary: acc)
  case Nil
  then show ?case by simp
next
  case (Cons i "is")
  have "i < length (frame_to_page s)" using Cons.prems(1) by simp
  then have "frame_to_page s ! i \<in> set (frame_to_page s)" by simp
  with assms(1) have "frame_to_page s ! i = -1 \<or>
      (0 \<le> frame_to_page s ! i \<and> nat (frame_to_page s ! i) < n)"
    by blast
  then have "snd (victim_step key s acc i) = -1 \<or>
         (0 \<le> snd (victim_step key s acc i) \<and> nat (snd (victim_step key s acc i)) < n)"
    using Cons.prems(2) by (auto simp: victim_step_def Let_def)
  with Cons.IH [of "victim_step key s acc i"] Cons.prems(1) show ?case by simp
qed

lemma selectVictimPage_range:
  assumes "vm_inv s"
  shows "selectVictimPage s = -1 \<or>
         (0 \<le> selectVictimPage s \<and> nat (selectVictimPage s) < length (page_table s))"
proof -
  have a: "\<forall>x \<in> set (frame_to_page s). x = -1 \<or> (0 \<le> x \<and> nat x < length (page_table s))"
    and b: "set [0 ..< nat (num_physical_frames s)] \<subseteq> {..< length (frame_to_page s)}"
    using assms by (auto simp: vm_inv_def)
  show ?thesis
    unfolding selectVictimPage_def
    using victim_fold_range [OF a b, of "(INT32_MAX, -1)"] by simp
qed

text \<open>Under the invariant the victim is clean, so neither increment of \<^verbatim>\<open>disk_writes\<close> runs.\<close>

lemma evictPage_inv:
  assumes "vm_inv s" "0 \<le> p" "nat p < length (page_table s)"
  shows "vm_inv (snd (evictPage s p)) \<and> disk_writes (snd (evictPage s p)) = disk_writes s"
proof -
  have "page_table s ! nat p \<in> set (page_table s)" using assms(3) by simp
  then have nd: "\<not> dirty (page_table s ! nat p)" using assms(1) by (simp add: vm_inv_def)
  have pt: "\<forall>q \<in> set ((page_table s)[nat p := x\<lparr>dirty := False\<rparr>]). \<not> dirty q" for x
    using assms(1) by (intro clean_update) (simp_all add: vm_inv_def)
  have ft: "\<forall>x \<in> set ((frame_to_page s)[i := -1]).
              x = -1 \<or> (0 \<le> x \<and> nat x < length (page_table s))" for i
    using assms(1) by (intro ftp_update) (simp_all add: vm_inv_def)
  show ?thesis
    using assms(1) nd pt ft unfolding vm_inv_def
    by (simp add: evictPage_def Let_def)
qed

lemma loadPage_inv:
  assumes "vm_inv s" "0 \<le> p" "nat p < length (page_table s)"
  shows "vm_inv (loadPage s p f) \<and> disk_writes (loadPage s p f) = disk_writes s"
proof -
  have pt: "\<forall>q \<in> set ((page_table s)
              [nat p := x\<lparr>dirty := False, load_time := a, last_access_time := b,
                          access_count := c\<rparr>]). \<not> dirty q" for x a b c
    using assms(1) by (intro clean_update) (simp_all add: vm_inv_def)
  have ft: "\<forall>x \<in> set ((frame_to_page s)[i := p]).
              x = -1 \<or> (0 \<le> x \<and> nat x < length (page_table s))" for i
    using assms by (intro ftp_update) (simp_all add: vm_inv_def)
  show ?thesis
    using assms(1) pt ft unfolding vm_inv_def
    by (simp add: loadPage_def Let_def)
qed

lemma handlePageFault_inv:
  assumes "vm_inv s" "0 \<le> p" "nat p < length (page_table s)"
  shows "vm_inv (handlePageFault s p) \<and> disk_writes (handlePageFault s p) = disk_writes s"
proof -
  obtain f s1 where ev: "evictPage s (selectVictimPage s) = (f, s1)"
    by (cases "evictPage s (selectVictimPage s)")
  show ?thesis
  proof (cases "findFreeFrame s = -1 \<and> selectVictimPage s \<noteq> -1")
    case True
    with selectVictimPage_range [OF assms(1)]
    have r: "0 \<le> selectVictimPage s" "nat (selectVictimPage s) < length (page_table s)"
      by auto
    from evictPage_inv [OF assms(1) r] ev
    have s1: "vm_inv s1" "disk_writes s1 = disk_writes s" by simp_all
    have "length (page_table s1) = length (page_table s)"
      using ev by (auto simp: evictPage_def Let_def split: if_splits)
    with loadPage_inv [OF s1(1) assms(2), of f] assms(3) s1(2) True show ?thesis
      by (simp add: handlePageFault_def Let_def ev)
  next
    case False
    with loadPage_inv [OF assms] assms(1) show ?thesis
      by (auto simp: handlePageFault_def Let_def)
  qed
qed

lemma translateAddress_inv:
  assumes "vm_inv s"
  shows "vm_inv (snd (translateAddress s va)) \<and>
         disk_writes (snd (translateAddress s va)) = disk_writes s"
proof (cases "va \<ge> virtual_memory_size s")
  case True
  with assms show ?thesis by (simp add: translateAddress_def Let_def vm_inv_def)
next
  case False
  let ?s1 = "s\<lparr>total_accesses := total_accesses s + 1, current_time := current_time s + 1\<rparr>"
  let ?s2 = "?s1\<lparr>page_faults := page_faults ?s1 + 1\<rparr>"
  let ?p = "int (va div page_size s)"
  have "va < length (page_table s) * page_size s" using False assms by (simp add: vm_inv_def)
  then have pr: "va div page_size s < length (page_table s)"
    by (simp add: less_mult_imp_div_less)
  have c2: "vm_inv ?s2" using assms by (simp add: vm_inv_def)
  have p2: "0 \<le> ?p" "nat ?p < length (page_table ?s2)" using pr by simp_all
  have "\<forall>q \<in> set ((page_table s)
            [i := (page_table s ! i)\<lparr>last_access_time := t, access_count := a\<rparr>]). \<not> dirty q"
    for i t a
    using assms by (intro clean_update) (simp_all add: vm_inv_def)
  then have hit: "vm_inv (?s1\<lparr>page_hits := h, page_table := (page_table s)
            [i := (page_table s ! i)\<lparr>last_access_time := t, access_count := a\<rparr>]\<rparr>)" for h i t a
    using assms unfolding vm_inv_def by simp
  show ?thesis
    using handlePageFault_inv [OF c2 p2] assms hit False
    by (simp add: translateAddress_def Let_def)
qed

lemma foldl_update_length:
  "length (foldl (\<lambda>xs i. xs[i := c]) xs is) = length xs"
  by (induction "is" arbitrary: xs) simp_all

lemma foldl_update_ball:
  "\<forall>p \<in> set xs. P p \<Longrightarrow> P c \<Longrightarrow> \<forall>p \<in> set (foldl (\<lambda>xs i. xs[i := c]) xs is). P p"
proof (induction "is" arbitrary: xs)
  case Nil
  then show ?case by simp
next
  case (Cons i "is")
  from Cons.prems have "\<forall>p \<in> set (xs[i := c]). P p" by (intro ball_update) simp_all
  with Cons.IH [of "xs[i := c]"] Cons.prems(2) show ?case by simp
qed

lemma reset_inv:
  assumes "vm_inv s"
  shows "vm_inv (reset s)"
proof -
  have pt: "\<forall>p \<in> set (foldl (\<lambda>xs i. xs[i := PageTableEntry_new]) (page_table s) is). \<not> dirty p"
    for "is"
    using assms by (intro foldl_update_ball) (simp_all add: vm_inv_def PageTableEntry_new_def)
  have ft: "\<forall>x \<in> set (foldl (\<lambda>xs i. xs[i := -1]) (frame_to_page s) is).
               x = -1 \<or> (0 \<le> x \<and> nat x < length (page_table s))" for "is"
    using assms
    by (intro foldl_update_ball [where P = "\<lambda>x. x = -1 \<or> (0 \<le> x \<and> nat x < length (page_table s))"])
       (simp_all add: vm_inv_def)
  show ?thesis
    using assms pt ft unfolding vm_inv_def
    by (simp add: reset_def clearStats_def foldl_update_length)
qed

lemma vm_step_inv:
  assumes "vm_inv s"
  shows "vm_inv (vm_step s x) \<and> (disk_writes s = 0 \<longrightarrow> disk_writes (vm_step s x) = 0)"
proof (cases x)
  case (TranslateAddress va)
  then show ?thesis using translateAddress_inv [OF assms] by simp
next
  case (Access va)
  then show ?thesis using translateAddress_inv [OF assms] by (simp add: access_def)
next
  case (SetReplacementPolicy p)
  then show ?thesis using assms by (simp add: setReplacementPolicy_def vm_inv_def)
next
  case (SetVerbose v)
  then show ?thesis using assms by (simp add: setVerbose_def vm_inv_def)
next
  case ClearStats
  then show ?thesis using assms by (simp add: clearStats_def vm_inv_def)
next
  case Reset
  then show ?thesis using reset_inv [OF assms] by (simp add: reset_def clearStats_def)
qed

lemma vm_run_inv:
  "vm_inv s \<Longrightarrow> disk_writes s = 0 \<Longrightarrow>
   vm_inv (vm_run s ops) \<and> disk_writes (vm_run s ops) = 0"
  unfolding vm_run_def
proof (induction ops arbitrary: s)
  case Nil
  then show ?case by simp
next
  case (Cons x ops)
  then show ?case using vm_step_inv [of s x] by simp
qed

lemma VirtualMemorySimulator_new_inv:
  assumes "0 < pg_size" and "pg_size dvd vm_size"
  shows "vm_inv (VirtualMemorySimulator_new vm_size pm_size pg_size pol)"
    and "disk_writes (VirtualMemorySimulator_new vm_size pm_size pg_size pol) = 0"
  using assms
  by (simp_all add: VirtualMemorySimulator_new_def Let_def vm_inv_def PageTableEntry_new_def)

text \<open>
  Claim C9: no operation of the simulator sets a dirty bit.  From a freshly constructed
  simulator, after every sequence of public calls (\<^verbatim>\<open>translateAddress\<close>, \<^verbatim>\<open>access\<close>,
  \<^verbatim>\<open>setReplacementPolicy\<close>, \<^verbatim>\<open>setVerbose\<close>, \<^verbatim>\<open>clearStats\<close>, \<^verbatim>\<open>reset\<close>) every
  page-table entry is clean and \<^verbatim>\<open>disk_writes\<close> is 0; the victim handed to
  \<^verbatim>\<open>evictPage\<close> is an entry of that table (lemma \<open>evictPage_inv\<close>), so its dirty branch
  is never taken.
\<close>

theorem C9_dirty_never_set:
  assumes "0 < pg_size" and "pg_size dvd vm_size"
  shows "(\<forall>pte \<in> set (page_table (vm_run (VirtualMemorySimulator_new vm_size pm_size pg_size pol) ops)).
            \<not> dirty pte)
       \<and> disk_writes (vm_run (VirtualMemorySimulator_new vm_size pm_size pg_size pol) ops) = 0"
  using vm_run_inv [OF VirtualMemorySimulator_new_inv [OF assms], of pm_size pol ops]
  by (simp add: vm_inv_def)

theorem C9_dirty_never_set_witness:
  "(0::nat) < 4 \<and> (4::nat) dvd 16 \<and>
   list_all (\<lambda>pte. dirty pte = False)
     (page_table (vm_run (VirtualMemorySimulator_new 16 8 4 ''lru'')
       [Access 0, SetVerbose True, TranslateAddress 4, Access 8, Access 0, ClearStats, Access 12]))
   \<and> disk_writes (vm_run (VirtualMemorySimulator_new 16 8 4 ''lru'')
       [Access 0, SetVerbose True, TranslateAddress 4, Access 8, Access 0, ClearStats, Access 12]) = 0"
  using C9_dirty_never_set [of 4 16 8 "''lru''"
      "[Access 0, SetVerbose True, TranslateAddress 4, Access 8, Access 0, ClearStats, Access 12]"]
  by (simp add: list_all_iff)

subsection \<open>The verbose flag on the runs of the public operations\<close>













end
